theory Spec2Isabelle
  imports Complex_Main "HOL-Library.Sublist"
begin

section \<open>Cost-center synchronisation scripts\<close>

text \<open>
  A shallow embedding of the three synchronisation scripts
  (\<^verbatim>\<open>sync_team_cost_center_exact.py\<close>, \<^verbatim>\<open>sync_team_to_cost_center.py\<close> and
  \<^verbatim>\<open>test.py\<close>). A Python \<^verbatim>\<open>str\<close> is a \<open>string\<close>; the characters of the model
  are the code points below 256. The HTTP transport (\<^verbatim>\<open>requests\<close>) is outside the
  scripts: a function that issues a request takes the response it received as an argument,
  and a loop that issues several takes the sequence of responses the server gives.
\<close>

subsection \<open>Strings\<close>

text \<open>
  The string operations of Python that the scripts use, on code points below 256 (the
  range of an HTTP header, which the transport decodes as ISO-8859-1).
  \<^verbatim>\<open>sub in s\<close> is \<open>sublist sub s\<close>, \<^verbatim>\<open>s[:n]\<close> is \<open>take n s\<close>.
\<close>

definition char_code :: "char \<Rightarrow> nat" where
  "char_code c = of_char c"

text \<open>\<^verbatim>\<open>str.lower\<close>: the upper-case letters are \<open>A..Z\<close> and, in the upper half,
  \<open>0xC0..0xDE\<close> without the multiplication sign \<open>0xD7\<close>; each maps 32 places up.\<close>

definition lower_char :: "char \<Rightarrow> char" where
  "lower_char c =
     (let n = char_code c
      in if (65 \<le> n \<and> n \<le> 90) \<or> (192 \<le> n \<and> n \<le> 222 \<and> n \<noteq> 215)
         then char_of (n + 32) else c)"

definition lower :: "string \<Rightarrow> string" where
  "lower s = map lower_char s"

text \<open>\<^verbatim>\<open>str.isdigit\<close>: a non-empty string of digit characters. Below 256 these are
  \<open>0..9\<close> and the superscripts two, three and one (\<open>0xB2\<close>, \<open>0xB3\<close>, \<open>0xB9\<close>).\<close>

definition is_decimal_char :: "char \<Rightarrow> bool" where
  "is_decimal_char c = (48 \<le> char_code c \<and> char_code c \<le> 57)"

definition is_digit_char :: "char \<Rightarrow> bool" where
  "is_digit_char c =
     (is_decimal_char c \<or> char_code c = 178 \<or> char_code c = 179 \<or> char_code c = 185)"

definition isdigit :: "string \<Rightarrow> bool" where
  "isdigit s = (s \<noteq> [] \<and> list_all is_digit_char s)"

text \<open>The whitespace that \<^verbatim>\<open>str.strip\<close> removes from both ends.\<close>

definition is_space :: "char \<Rightarrow> bool" where
  "is_space c =
     (let n = char_code c
      in (9 \<le> n \<and> n \<le> 13) \<or> (28 \<le> n \<and> n \<le> 32) \<or> n = 133 \<or> n = 160)"

definition strip :: "string \<Rightarrow> string" where
  "strip s = rev (dropWhile is_space (rev (dropWhile is_space s)))"

text \<open>\<^verbatim>\<open>s.split(c)\<close> for a one-character separator: never an empty list.\<close>

fun split :: "char \<Rightarrow> string \<Rightarrow> string list" where
  "split c [] = [] # []"
| "split c (x # xs) =
     (if x = c then [] # split c xs
      else (case split c xs of
              [] \<Rightarrow> [x] # []
            | p # ps \<Rightarrow> (x # p) # ps))"

text \<open>\<^verbatim>\<open>s.find(c)\<close>: the index of the first occurrence, or \<open>-1\<close>.\<close>

fun find_from :: "char \<Rightarrow> string \<Rightarrow> int \<Rightarrow> int" where
  "find_from c [] i = - 1"
| "find_from c (x # xs) i = (if x = c then i else find_from c xs (i + 1))"

definition find :: "string \<Rightarrow> char \<Rightarrow> int" where
  "find s c = find_from c s 0"

text \<open>\<^verbatim>\<open>xs[i:j]\<close> for \<open>0 \<le> i\<close> and \<open>0 \<le> j\<close>: Python clamps both ends to the list.\<close>

definition slice :: "'a list \<Rightarrow> nat \<Rightarrow> nat \<Rightarrow> 'a list" where
  "slice xs i j = take (j - i) (drop i xs)"

subsection \<open>The continuation header\<close>

text \<open>
  \<^verbatim>\<open>parse_next_link\<close> (the same text in the three scripts). The argument is
  \<^verbatim>\<open>resp.headers.get("Link")\<close>: \<open>None\<close> when the header is absent. The loop goes on to the
  next part when a part with the marker has no well-placed angle brackets.
\<close>

definition next_marker :: string where
  \<open>next_marker = ''rel="next"''\<close>

fun parse_parts :: "string list \<Rightarrow> string option" where
  "parse_parts [] = None"
| "parse_parts (part # parts) =
     (if sublist next_marker part then
        (let start = find part (CHR ''<'') + 1;
             end' = find part (CHR ''>'')
         in if start > 0 \<and> end' > start then Some (slice part (nat start) (nat end'))
            else parse_parts parts)
      else parse_parts parts)"

definition parse_next_link :: "string option \<Rightarrow> string option" where
  "parse_next_link link_header =
     (case link_header of
        None \<Rightarrow> None
      | Some h \<Rightarrow>
          if h = [] then None
          else parse_parts (map strip (split (CHR '','') h)))"

subsection \<open>Errors\<close>

text \<open>
  Every \<^verbatim>\<open>raise\<close> of the scripts is a value. \<^verbatim>\<open>SystemExit\<close> carries the values that the
  source interpolates into its message (the page number, the URL, the status and the
  first 1000 characters of the body); the other constructors are the exceptions that
  Python itself raises.
\<close>

datatype exit_message =
    FetchFailed nat string int string
  | NonJSON nat string string
  | TooManyPages
  | CostCenterFetchFailed string int string
  | CostCenterNonJSON string
  | AddFailed string string int string
  | RemoveFailed string string int string

datatype error =
    SystemExit exit_message
  | ValueError
  | AssertionError
  | AttributeError
  | TypeError

subsection \<open>Batches\<close>

text \<open>
  \<^verbatim>\<open>chunked\<close> of \<^verbatim>\<open>test.py\<close>:
  \<^verbatim>\<open>[xs[i : i + size] for i in range(0, len(xs), size)]\<close>.
  The chunk size is \<open>k\<close> here (\<open>size\<close> is a constant of HOL).
  \<^verbatim>\<open>range\<close> raises \<^verbatim>\<open>ValueError\<close> for a step of zero and is empty for a negative step
  from 0 to a length.
\<close>

function range_from :: "nat \<Rightarrow> nat \<Rightarrow> nat \<Rightarrow> nat list" where
  "range_from i stop step =
     (if step = 0 \<or> stop \<le> i then [] else i # range_from (i + step) stop step)"
  by pat_completeness auto
termination
  by (relation "measure (\<lambda>(i, stop, step). stop - i)") auto

declare range_from.simps [simp del]

definition py_range :: "int \<Rightarrow> int \<Rightarrow> error + nat list" where
  "py_range stop step =
     (if step = 0 then Inl ValueError
      else if step < 0 \<or> stop \<le> 0 then Inr []
      else Inr (range_from 0 (nat stop) (nat step)))"

definition chunked :: "'a list \<Rightarrow> int \<Rightarrow> error + 'a list list" where
  "chunked xs k =
     (case py_range (int (length xs)) k of
        Inl e \<Rightarrow> Inl e
      | Inr starts \<Rightarrow> Inr (map (\<lambda>i. slice xs i (i + nat k)) starts))"

subsection \<open>De-duplication\<close>

text \<open>
  The loop at the end of \<^verbatim>\<open>fetch_enterprise_team_member_logins\<close> (the same in the three
  scripts): \<open>seen\<close> is the set, \<open>unique\<close> the list that is returned.
\<close>

fun dedup_loop :: "'a list \<Rightarrow> 'a set \<Rightarrow> 'a list \<Rightarrow> 'a list" where
  "dedup_loop [] seen unique = unique"
| "dedup_loop (x # xs) seen unique =
     (if x \<notin> seen then dedup_loop xs (insert x seen) (unique @ [x])
      else dedup_loop xs seen unique)"

definition dedup :: "'a list \<Rightarrow> 'a list" where
  "dedup logins = dedup_loop logins {} []"

text \<open>
  \<^verbatim>\<open>fetch_cost_center_users\<close> de-duplicates with \<^verbatim>\<open>list(set(logins))\<close>. A Python set of
  strings is iterated in the order of the hashes, which change from one process to the
  next, so the call has several possible results: \<open>list_of_set logins ys\<close> says that \<open>ys\<close>
  is one of them.
\<close>

definition list_of_set :: "'a list \<Rightarrow> 'a list \<Rightarrow> bool" where
  "list_of_set logins ys = (distinct ys \<and> set ys = set logins)"

subsection \<open>The reconciliation plan\<close>

text \<open>
  \<^verbatim>\<open>main\<close> of \<^verbatim>\<open>sync_team_cost_center_exact.py\<close>, lines 245 to 250: both fetched lists
  are turned into sets, and the three buckets are computed with set difference and
  intersection.
\<close>

record plan =
  users_to_add :: "string set"
  users_to_remove :: "string set"
  users_already_synced :: "string set"

definition sync_plan :: "string list \<Rightarrow> string list \<Rightarrow> plan" where
  "sync_plan team_members cost_center_users =
     (let team_set = set team_members;
          cost_center_set = set cost_center_users
      in \<lparr> users_to_add = team_set - cost_center_set,
           users_to_remove = cost_center_set - team_set,
           users_already_synced = team_set \<inter> cost_center_set \<rparr>)"

text \<open>
  Notation for the statements about the header: \<open>locator seg u\<close> says that \<open>u\<close> is what
  lies between the first \<open><\<close> and the first \<open>>\<close> of the segment \<open>seg\<close>, that this \<open>>\<close> comes
  after that \<open><\<close>, and that \<open>u\<close> is not empty.
\<close>

abbreviation locator :: "string \<Rightarrow> string \<Rightarrow> bool" where
  "locator seg u \<equiv>
     (\<exists>pre post. seg = pre @ [CHR ''<''] @ u @ [CHR ''>''] @ post
        \<and> CHR ''<'' \<notin> set pre \<and> CHR ''>'' \<notin> set pre \<and> CHR ''>'' \<notin> set u)
     \<and> u \<noteq> []"

subsection \<open>Responses\<close>

text \<open>
  A decoded JSON value. A number is kept as a rational: the scripts only test whether it
  is zero. The pairs of \<open>JDict\<close> are the items of the decoded \<^verbatim>\<open>dict\<close>, in its order, with
  distinct keys.
\<close>

datatype json =
    JNull
  | JBool bool
  | JNum rat
  | JStr string
  | JList "json list"
  | JDict "(string \<times> json) list"

text \<open>Python's truth value of a decoded value.\<close>

fun truthy :: "json \<Rightarrow> bool" where
  "truthy JNull = False"
| "truthy (JBool b) = b"
| "truthy (JNum n) = (n \<noteq> 0)"
| "truthy (JStr s) = (s \<noteq> [])"
| "truthy (JList xs) = (xs \<noteq> [])"
| "truthy (JDict kvs) = (kvs \<noteq> [])"

text \<open>\<^verbatim>\<open>d.get(key)\<close>: \<^verbatim>\<open>None\<close>, which decodes from \<^verbatim>\<open>null\<close> too, when the key is absent.\<close>

definition dict_get :: "(string \<times> json) list \<Rightarrow> string \<Rightarrow> json" where
  "dict_get d key = (case map_of d key of None \<Rightarrow> JNull | Some v \<Rightarrow> v)"

text \<open>
  What the scripts read of a \<^verbatim>\<open>requests.Response\<close>: \<^verbatim>\<open>status_code\<close>, \<^verbatim>\<open>text\<close> (here
  \<open>body\<close>), \<^verbatim>\<open>headers\<close>, and the result of \<^verbatim>\<open>json()\<close>, which is \<open>None\<close> when the call
  raises because the body does not decode. \<open>headers resp name\<close> is
  \<^verbatim>\<open>resp.headers.get(name)\<close> for the name as the scripts spell it (the lookup of the
  transport ignores the case of the name).
\<close>

record response =
  status_code :: int
  body :: string
  headers :: "string \<rightharpoonup> string"
  json_body :: "json option"

subsection \<open>Mutation outcomes\<close>

text \<open>\<^verbatim>\<open>str(n)\<close> for the status code in a message.\<close>

fun str_nat :: "nat \<Rightarrow> string" where
  "str_nat n =
     (if n < 10 then [char_of (48 + n)]
      else str_nat (n div 10) @ [char_of (48 + n mod 10)])"

declare str_nat.simps [simp del]

definition str_int :: "int \<Rightarrow> string" where
  "str_int i = (if i < 0 then CHR ''-'' # str_nat (nat (- i)) else str_nat (nat i))"

definition success_codes :: "int set" where
  "success_codes = {200, 201, 202, 204}"

text \<open>
  \<^verbatim>\<open>add_user_to_cost_center\<close> of \<^verbatim>\<open>sync_team_cost_center_exact.py\<close>. \<open>resp\<close> is the
  response to the \<^verbatim>\<open>POST\<close>. The result is the pair \<^verbatim>\<open>(ok, message)\<close> or the
  \<^verbatim>\<open>SystemExit\<close>.
\<close>

definition resources_url :: "string \<Rightarrow> string \<Rightarrow> string \<Rightarrow> string \<Rightarrow> string" where
  "resources_url base enterprise cost_center_id leaf =
     base @ ''/enterprises/'' @ enterprise @ ''/settings/billing/cost-centers/''
       @ cost_center_id @ leaf"

definition add_user_to_cost_center_exact ::
  "string \<Rightarrow> string \<Rightarrow> string \<Rightarrow> string \<Rightarrow> response \<Rightarrow> error + (bool \<times> string)" where
  "add_user_to_cost_center_exact base enterprise cost_center_id login resp =
     (let url = resources_url base enterprise cost_center_id ''/resources''
      in if status_code resp \<in> success_codes then Inr (True, ''Added '' @ login)
         else if status_code resp \<in> {409, 422} then
           (let body' = lower (take 500 (body resp))
            in if sublist ''already'' body' \<or> sublist ''exists'' body'
               then Inr (False, ''Skip '' @ login @ '': already exists'')
               else Inr (False, ''Skip '' @ login @ '': '' @ take 500 (body resp)))
         else Inl (SystemExit
                     (AddFailed login url (status_code resp) (take 1000 (body resp)))))"

text \<open>\<^verbatim>\<open>add_user_to_cost_center\<close> of \<^verbatim>\<open>sync_team_to_cost_center.py\<close>.\<close>

definition add_user_to_cost_center ::
  "string \<Rightarrow> string \<Rightarrow> string \<Rightarrow> string \<Rightarrow> response \<Rightarrow> error + (bool \<times> string)" where
  "add_user_to_cost_center base enterprise cost_center_id login resp =
     (let url = resources_url base enterprise cost_center_id ''/resource''
      in if status_code resp \<in> success_codes
         then Inr (True, ''Added '' @ login @ '' (HTTP '' @ str_int (status_code resp) @ '')'')
         else if status_code resp \<in> {409, 422} then
           (let body' = lower (take 500 (body resp))
            in if sublist ''already'' body' \<or> sublist ''exists'' body'
                  \<or> sublist ''has already been taken'' body' \<or> sublist ''conflict'' body'
               then Inr (False, ''Skip '' @ login @ '': already in cost center (HTTP ''
                                  @ str_int (status_code resp) @ '')'')
               else Inr (False, ''Skip '' @ login @ '': not added (HTTP ''
                                  @ str_int (status_code resp) @ '') body=''
                                  @ take 500 (body resp)))
         else Inl (SystemExit
                     (AddFailed login url (status_code resp) (take 1000 (body resp)))))"

text \<open>\<^verbatim>\<open>remove_user_from_cost_center\<close> of \<^verbatim>\<open>sync_team_cost_center_exact.py\<close>; \<open>resp\<close> is
  the response to the \<^verbatim>\<open>DELETE\<close>.\<close>

definition remove_user_from_cost_center ::
  "string \<Rightarrow> string \<Rightarrow> string \<Rightarrow> string \<Rightarrow> response \<Rightarrow> error + (bool \<times> string)" where
  "remove_user_from_cost_center base enterprise cost_center_id login resp =
     (let url = resources_url base enterprise cost_center_id ''/resource''
      in if status_code resp \<in> success_codes then Inr (True, ''Removed '' @ login)
         else if status_code resp = 400 then
           (let body' = lower (take 500 (body resp))
            in if sublist ''no resources'' body'
               then Inr (False, ''Skip '' @ login
                                  @ '': not in cost center (API says no resources to remove)'')
               else Inr (False, ''Skip '' @ login @ '': '' @ take 500 (body resp)))
         else if status_code resp = 404
         then Inr (False, ''Skip '' @ login @ '': endpoint or user not found (HTTP 404)'')
         else Inl (SystemExit
                     (RemoveFailed login url (status_code resp) (take 1000 (body resp)))))"

subsection \<open>The retrying request\<close>

text \<open>
  \<^verbatim>\<open>is_secondary_rate_limit\<close> of \<^verbatim>\<open>test.py\<close>. \<open>json_message\<close> is the \<^verbatim>\<open>try\<close> block: \<open>None\<close>
  when it raises, because the body does not decode, the decoded value has no \<^verbatim>\<open>get\<close>
  (it is not a \<^verbatim>\<open>dict\<close>), or the truthy message has no \<^verbatim>\<open>lower\<close> (it is not a string).
  The \<^verbatim>\<open>except\<close> branch then takes the whole body.
\<close>

definition json_message :: "response \<Rightarrow> string option" where
  "json_message resp =
     (case json_body resp of
        Some (JDict j) \<Rightarrow>
          (let m = dict_get j ''message''
           in if \<not> truthy m then Some (lower [])
              else (case m of JStr s \<Rightarrow> Some (lower s) | _ \<Rightarrow> None))
      | _ \<Rightarrow> None)"

definition is_secondary_rate_limit :: "response \<Rightarrow> bool" where
  "is_secondary_rate_limit resp =
     (let msg = (case json_message resp of
                   Some m \<Rightarrow> m
                 | None \<Rightarrow> lower (body resp))
      in sublist ''secondary rate limit'' msg)"

text \<open>
  \<^verbatim>\<open>int(retry_after)\<close>, which the source reaches for a string that passed \<^verbatim>\<open>isdigit()\<close>:
  the value of a decimal literal, and \<^verbatim>\<open>ValueError\<close> when a character is not one of
  \<open>0..9\<close>. The limit of the interpreter on the length of a literal is not modelled.
\<close>

definition py_int :: "string \<Rightarrow> error + int" where
  "py_int s =
     (if s \<noteq> [] \<and> list_all is_decimal_char s
      then Inr (int (foldl (\<lambda>acc c. 10 * acc + (char_code c - 48)) 0 s))
      else Inl ValueError)"

text \<open>
  The computation of \<^verbatim>\<open>sleep_s\<close> in \<^verbatim>\<open>request_with_backoff\<close> (lines 89 to 93), in seconds.
  \<open>jitter\<close> is the value that \<^verbatim>\<open>random.uniform(0, 1.5)\<close> returns when it is called, and the
  sum is taken in the reals (the source adds an \<^verbatim>\<open>int\<close> and a \<^verbatim>\<open>float\<close>).
\<close>

definition retry_delay :: "response \<Rightarrow> int \<Rightarrow> nat \<Rightarrow> real \<Rightarrow> error + real" where
  "retry_delay resp max_backoff_seconds attempt jitter =
     (let backoff = real_of_int (min max_backoff_seconds (2 ^ attempt)) + jitter
      in case headers resp ''Retry-After'' of
           None \<Rightarrow> Inr backoff
         | Some retry_after \<Rightarrow>
             if retry_after \<noteq> [] \<and> isdigit retry_after then
               (case py_int retry_after of
                  Inl e \<Rightarrow> Inl e
                | Inr n \<Rightarrow> Inr (real_of_int n))
             else Inr backoff)"

text \<open>
  \<^verbatim>\<open>request_with_backoff\<close>. \<open>send attempt\<close> is the response to the request of that attempt
  and \<open>jitter attempt\<close> the random draw of that attempt. The first argument of the loop
  counts the iterations that \<^verbatim>\<open>range(max_retries)\<close> has left; \<open>last'\<close> is the variable \<^verbatim>\<open>last\<close>
  of the source. The result comes with the list of the sleeps, in order;
  \<^verbatim>\<open>time.sleep\<close> raises \<^verbatim>\<open>ValueError\<close> for a negative length.
\<close>

fun backoff_loop ::
  "(nat \<Rightarrow> response) \<Rightarrow> (nat \<Rightarrow> real) \<Rightarrow> int \<Rightarrow> nat \<Rightarrow> nat \<Rightarrow> response option \<Rightarrow> real list
     \<Rightarrow> (error + response) \<times> real list" where
  "backoff_loop send jitter max_backoff_seconds 0 attempt last' sleeps =
     (case last' of
        None \<Rightarrow> (Inl AssertionError, sleeps)
      | Some resp \<Rightarrow> (Inr resp, sleeps))"
| "backoff_loop send jitter max_backoff_seconds (Suc left) attempt last' sleeps =
     (let resp = send attempt
      in if status_code resp \<notin> {403, 429} then (Inr resp, sleeps)
         else (case retry_delay resp max_backoff_seconds attempt (jitter attempt) of
                 Inl e \<Rightarrow> (Inl e, sleeps)
               | Inr sleep_s \<Rightarrow>
                   if status_code resp = 429 \<or> is_secondary_rate_limit resp then
                     (if sleep_s < 0 then (Inl ValueError, sleeps)
                      else backoff_loop send jitter max_backoff_seconds left (Suc attempt)
                             (Some resp) (sleeps @ [sleep_s]))
                   else (Inr resp, sleeps)))"

definition request_with_backoff ::
  "(nat \<Rightarrow> response) \<Rightarrow> (nat \<Rightarrow> real) \<Rightarrow> int \<Rightarrow> int \<Rightarrow> (error + response) \<times> real list" where
  "request_with_backoff send jitter max_retries max_backoff_seconds =
     backoff_loop send jitter max_backoff_seconds (nat max_retries) 0 None []"

subsection \<open>Fetching the team members\<close>

text \<open>\<^verbatim>\<open>extract_memberships\<close> (the same text in the three scripts).\<close>

fun first_list_key :: "(string \<times> json) list \<Rightarrow> string list \<Rightarrow> json list option" where
  "first_list_key payload [] = None"
| "first_list_key payload (key # keys) =
     (case map_of payload key of
        Some (JList v) \<Rightarrow> Some v
      | _ \<Rightarrow> first_list_key payload keys)"

fun is_dict :: "json \<Rightarrow> bool" where
  "is_dict (JDict d) = True"
| "is_dict _ = False"

fun first_record_list :: "json list \<Rightarrow> json list option" where
  "first_record_list [] = None"
| "first_record_list (JList v # vs) =
     (case v of
        [] \<Rightarrow> Some v
      | m # _ \<Rightarrow> if is_dict m then Some v else first_record_list vs)"
| "first_record_list (_ # vs) = first_record_list vs"

fun extract_memberships :: "json \<Rightarrow> json list" where
  "extract_memberships (JList payload) = payload"
| "extract_memberships (JDict payload) =
     (case first_list_key payload [''memberships'', ''items'', ''value'', ''data''] of
        Some v \<Rightarrow> v
      | None \<Rightarrow>
          (case first_record_list (map snd payload) of
             Some v \<Rightarrow> v
           | None \<Rightarrow> []))"
| "extract_memberships _ = []"

text \<open>
  The body of the loop over the memberships: the login that a membership adds to
  \<open>logins\<close>, if any. The scripts declare \<open>logins\<close> a list of strings and the model keeps it
  one: a truthy login that is not a string, which the source would append as it is, is
  left out.
\<close>

fun str_value :: "json \<Rightarrow> string option" where
  "str_value (JStr s) = (if s \<noteq> [] then Some s else None)"
| "str_value _ = None"

fun member_login :: "json \<Rightarrow> string option" where
  "member_login (JDict m) =
     (let user = (if truthy (dict_get m ''user'') then dict_get m ''user'' else JDict []);
          login = (case user of JDict u \<Rightarrow> dict_get u ''login'' | _ \<Rightarrow> JNull);
          login = (if truthy login then login else dict_get m ''login'')
      in str_value login)"
| "member_login _ = None"

definition page_logins :: "json \<Rightarrow> string list" where
  "page_logins payload = List.map_filter member_login (extract_memberships payload)"

text \<open>
  The \<^verbatim>\<open>while next_url\<close> loop of \<^verbatim>\<open>fetch_enterprise_team_member_logins\<close>.
  \<open>request page url\<close> is the outcome of the request that iteration \<open>page\<close> issues for
  \<open>url\<close>; \<open>fetched\<close> counts the iterations; the result is that count with the error or
  the de-duplicated logins.
\<close>

function fetch_loop ::
  "(nat \<Rightarrow> string \<Rightarrow> error + response) \<Rightarrow> string option \<Rightarrow> nat \<Rightarrow> string list \<Rightarrow> nat
     \<Rightarrow> nat \<times> (error + string list)" where
  "fetch_loop request next_url page logins fetched =
     (case next_url of
        None \<Rightarrow> (fetched, Inr (dedup logins))
      | Some url \<Rightarrow>
          if url = [] then (fetched, Inr (dedup logins))
          else
            (case request page url of
               Inl e \<Rightarrow> (Suc fetched, Inl e)
             | Inr resp \<Rightarrow>
                 if status_code resp \<noteq> 200
                 then (Suc fetched,
                       Inl (SystemExit (FetchFailed page url (status_code resp)
                                          (take 1000 (body resp)))))
                 else
                   (case json_body resp of
                      None \<Rightarrow>
                        (Suc fetched, Inl (SystemExit (NonJSON page url (take 1000 (body resp)))))
                    | Some payload \<Rightarrow>
                        if Suc page > 200 then (Suc fetched, Inl (SystemExit TooManyPages))
                        else fetch_loop request (parse_next_link (headers resp ''Link''))
                               (Suc page) (logins @ page_logins payload) (Suc fetched))))"
  by pat_completeness auto
termination
  by (relation "measure (\<lambda>(request, next_url, page, logins, fetched). 201 - page)") auto

declare fetch_loop.simps [simp del]

definition memberships_url :: "string \<Rightarrow> string \<Rightarrow> string \<Rightarrow> string" where
  "memberships_url base enterprise team_slug =
     base @ ''/enterprises/'' @ enterprise @ ''/teams/'' @ team_slug @ ''/memberships''"

text \<open>
  \<^verbatim>\<open>fetch_enterprise_team_member_logins\<close> of \<^verbatim>\<open>sync_team_cost_center_exact.py\<close> and
  \<^verbatim>\<open>sync_team_to_cost_center.py\<close>: each iteration issues one \<^verbatim>\<open>requests.get\<close>, answered by
  \<open>server page url\<close>.
\<close>

definition fetch_enterprise_team_member_logins ::
  "(nat \<Rightarrow> string \<Rightarrow> response) \<Rightarrow> string \<Rightarrow> string \<Rightarrow> string \<Rightarrow> nat \<times> (error + string list)" where
  "fetch_enterprise_team_member_logins server base enterprise team_slug =
     fetch_loop (\<lambda>page url. Inr (server page url))
       (Some (memberships_url base enterprise team_slug)) 1 [] 0"

text \<open>
  The one of \<^verbatim>\<open>test.py\<close>: each iteration calls \<^verbatim>\<open>request_with_backoff\<close> with the default
  \<^verbatim>\<open>max_retries = 8\<close> and \<^verbatim>\<open>max_backoff_seconds = 60\<close>; \<open>server page url attempt\<close> answers
  the request of that attempt.
\<close>

definition fetch_enterprise_team_member_logins_backoff ::
  "(nat \<Rightarrow> string \<Rightarrow> nat \<Rightarrow> response) \<Rightarrow> (nat \<Rightarrow> nat \<Rightarrow> real) \<Rightarrow> string \<Rightarrow> string \<Rightarrow> string
     \<Rightarrow> nat \<times> (error + string list)" where
  "fetch_enterprise_team_member_logins_backoff server jitter base enterprise team_slug =
     fetch_loop (\<lambda>page url. fst (request_with_backoff (server page url) (jitter page) 8 60))
       (Some (memberships_url base enterprise team_slug)) 1 [] 0"

subsection \<open>Fetching the cost-center users\<close>

text \<open>
  \<^verbatim>\<open>payload.get("resources", [])\<close> and what the loop over it visits: \<^verbatim>\<open>AttributeError\<close>
  when the payload is not a \<^verbatim>\<open>dict\<close>, \<^verbatim>\<open>TypeError\<close> from \<^verbatim>\<open>len\<close> when the value has no
  length; a string is visited character by character and a \<^verbatim>\<open>dict\<close> key by key.
\<close>

fun resources_of :: "json \<Rightarrow> error + json list" where
  "resources_of (JDict payload) =
     (case map_of payload ''resources'' of
        None \<Rightarrow> Inr []
      | Some (JList v) \<Rightarrow> Inr v
      | Some (JStr s) \<Rightarrow> Inr (map (\<lambda>c. JStr [c]) s)
      | Some (JDict d) \<Rightarrow> Inr (map (\<lambda>kv. JStr (fst kv)) d)
      | Some _ \<Rightarrow> Inl TypeError)"
| "resources_of _ = Inl AttributeError"

text \<open>The name that a resource adds to \<open>logins\<close>, if any; a truthy name that is not a
  string is left out, as for the team members.\<close>

fun resource_login :: "json \<Rightarrow> string option" where
  "resource_login (JDict resource) =
     (let resource_type = dict_get resource ''type'';
          name = dict_get resource ''name''
      in if resource_type = JStr ''User'' then str_value name else None)"
| "resource_login _ = None"

text \<open>
  \<^verbatim>\<open>fetch_cost_center_users\<close>; \<open>resp\<close> is the response to the \<^verbatim>\<open>GET\<close>. Because of
  \<^verbatim>\<open>list(set(logins))\<close> the function is a relation: \<open>fetch_cost_center_users \<dots> resp out\<close>
  says that \<open>out\<close> is a possible outcome for \<open>resp\<close>.
\<close>

definition fetch_cost_center_users ::
  "string \<Rightarrow> string \<Rightarrow> string \<Rightarrow> response \<Rightarrow> error + string list \<Rightarrow> bool" where
  "fetch_cost_center_users base enterprise cost_center_id resp out =
     (let url = resources_url base enterprise cost_center_id []
      in if status_code resp = 404 then out = Inr []
         else if status_code resp \<noteq> 200
         then out = Inl (SystemExit (CostCenterFetchFailed url (status_code resp)
                                       (take 1000 (body resp))))
         else
           (case json_body resp of
              None \<Rightarrow> out = Inl (SystemExit (CostCenterNonJSON (take 1000 (body resp))))
            | Some payload \<Rightarrow>
                (case resources_of payload of
                   Inl e \<Rightarrow> out = Inl e
                 | Inr resources \<Rightarrow>
                     (case out of
                        Inl e \<Rightarrow> False
                      | Inr unique_logins \<Rightarrow>
                          list_of_set (List.map_filter resource_login resources)
                            unique_logins))))"

subsection \<open>The mutation phases\<close>

text \<open>
  The two loops of \<^verbatim>\<open>main\<close> in \<^verbatim>\<open>sync_team_cost_center_exact.py\<close> that add and remove the
  users and append a row to \<open>results\<close> for each. The list of logins is the bucket of the
  plan in the order in which the set is iterated; \<open>post login\<close> and \<open>delete login\<close> are the
  responses to the request for that login. The handler \<^verbatim>\<open>except Exception\<close> of the loops
  does not catch \<^verbatim>\<open>SystemExit\<close>, and the two functions raise nothing else, so an error
  leaves the loop. The counters of the source are left out.
\<close>

record row =
  row_login :: string
  row_action :: string
  row_status :: string
  row_message :: string

fun add_users ::
  "string \<Rightarrow> string \<Rightarrow> string \<Rightarrow> (string \<Rightarrow> response) \<Rightarrow> string list \<Rightarrow> row list
     \<Rightarrow> error + row list" where
  "add_users base enterprise cost_center_id post [] results = Inr results"
| "add_users base enterprise cost_center_id post (login # logins) results =
     (case add_user_to_cost_center_exact base enterprise cost_center_id login (post login) of
        Inl e \<Rightarrow> Inl e
      | Inr (ok, msg) \<Rightarrow>
          add_users base enterprise cost_center_id post logins
            (results @ [\<lparr> row_login = login, row_action = ''add'',
                           row_status = (if ok then ''success'' else ''skipped''),
                           row_message = msg \<rparr>]))"

fun remove_users ::
  "string \<Rightarrow> string \<Rightarrow> string \<Rightarrow> (string \<Rightarrow> response) \<Rightarrow> string list \<Rightarrow> row list
     \<Rightarrow> error + row list" where
  "remove_users base enterprise cost_center_id delete [] results = Inr results"
| "remove_users base enterprise cost_center_id delete (login # logins) results =
     (case remove_user_from_cost_center base enterprise cost_center_id login (delete login) of
        Inl e \<Rightarrow> Inl e
      | Inr (ok, msg) \<Rightarrow>
          remove_users base enterprise cost_center_id delete logins
            (results @ [\<lparr> row_login = login, row_action = ''remove'',
                           row_status = (if ok then ''success'' else ''skipped''),
                           row_message = msg \<rparr>]))"

text \<open>
  The measure used to state the order of a de-duplicated list: \<open>first_index xs a\<close> is
  the position at which \<open>a\<close> is first seen in \<open>xs\<close>.
\<close>

fun first_index :: "'a list \<Rightarrow> 'a \<Rightarrow> nat" where
  "first_index [] a = 0"
| "first_index (x # xs) a = (if x = a then 0 else Suc (first_index xs a))"

section \<open>Properties\<close>

subsection \<open>Reconciliation plan\<close>

text \<open>
  C1. For the two fetched identity lists, with \<open>source\<close> the set of the team members and
  \<open>target\<close> the set of the cost-center users, the plan has \<open>toAdd = source - target\<close>,
  \<open>toRemove = target - source\<close> and \<open>alreadySynced = source \<inter> target\<close>; the three buckets
  are pairwise disjoint, \<open>toAdd \<union> alreadySynced = source\<close> and
  \<open>toRemove \<union> alreadySynced = target\<close>.
\<close>

theorem sync_plan_partition:
  "(let p = sync_plan team_members cost_center_users;
        source = set team_members;
        target = set cost_center_users
    in users_to_add p = source - target
     \<and> users_to_remove p = target - source
     \<and> users_already_synced p = source \<inter> target
     \<and> users_to_add p \<inter> users_to_remove p = {}
     \<and> users_to_add p \<inter> users_already_synced p = {}
     \<and> users_to_remove p \<inter> users_already_synced p = {}
     \<and> users_to_add p \<union> users_already_synced p = source
     \<and> users_to_remove p \<union> users_already_synced p = target)"
  unfolding sync_plan_def Let_def by auto

subsection \<open>Batches\<close>

lemma concat_range_from:
  "0 < k \<Longrightarrow> concat (map (\<lambda>i. slice xs i (i + k)) (range_from i (length xs) k)) = drop i xs"
proof (induction i "length xs" k rule: range_from.induct)
  case (1 i step)
  show ?case
  proof (cases "length xs \<le> i")
    case True
    then show ?thesis by (subst range_from.simps) simp
  next
    case False
    have "range_from i (length xs) step = i # range_from (i + step) (length xs) step"
      using False 1(2) by (subst range_from.simps) simp
    moreover have "concat (map (\<lambda>i. slice xs i (i + step)) (range_from (i + step) (length xs) step)) = drop (i + step) xs"
      using 1 False by simp
    moreover have "take step (drop i xs) @ drop (i + step) xs = drop i xs"
      using append_take_drop_id[of step "drop i xs"] by (simp add: add.commute)
    ultimately show ?thesis
      by (simp add: slice_def)
  qed
qed

lemma length_range_from:
  "0 < k \<Longrightarrow> length (range_from i n k) = (n - i + k - 1) div k"
proof (induction i n k rule: range_from.induct)
  case (1 i stop step)
  show ?case
  proof (cases "stop \<le> i")
    case True
    then show ?thesis using 1(2) by (subst range_from.simps) simp
  next
    case False
    have eq: "range_from i stop step = i # range_from (i + step) stop step"
      using False 1(2) by (subst range_from.simps) simp
    have ih: "length (range_from (i + step) stop step) = (stop - (i + step) + step - 1) div step"
      using 1 False by simp
    show ?thesis
    proof (cases "i + step \<le> stop")
      case True
      then have e: "stop - i + step - 1 = (stop - (i + step) + step - 1) + step"
        using 1(2) by arith
      have "(stop - i + step - 1) div step = Suc ((stop - (i + step) + step - 1) div step)"
        unfolding e using 1(2) by (simp only: div_add_self2 Suc_eq_plus1)
      then show ?thesis using eq ih by simp
    next
      case f2: False
      then have a: "(stop - (i + step) + step - 1) div step = 0" using 1(2) by simp
      have "step \<le> stop - i + step - 1" "stop - i + step - 1 < 2 * step"
        using False f2 by arith+
      then have "(stop - i + step - 1) div step = 1"
        by (intro div_nat_eqI) simp_all
      then show ?thesis using eq ih a by simp
    qed
  qed
qed

lemma nth_range_from:
  "0 < k \<Longrightarrow> j < length (range_from i n k) \<Longrightarrow> range_from i n k ! j = i + j * k"
proof (induction i n k arbitrary: j rule: range_from.induct)
  case (1 i stop step)
  show ?case
  proof (cases "stop \<le> i")
    case True
    then have "range_from i stop step = []" by (subst range_from.simps) simp
    then show ?thesis using 1(3) by simp
  next
    case False
    have eq: "range_from i stop step = i # range_from (i + step) stop step"
      using False 1(2) by (subst range_from.simps) simp
    show ?thesis
    proof (cases j)
      case 0
      then show ?thesis using eq by simp
    next
      case (Suc j')
      then have "j' < length (range_from (i + step) stop step)" using 1(3) eq by simp
      then have "range_from (i + step) stop step ! j' = i + step + j' * step"
        using 1(1)[of j'] False 1(2) by simp
      then show ?thesis using eq Suc by simp
    qed
  qed
qed

lemma set_range_from: "x \<in> set (range_from i n k) \<Longrightarrow> x < n"
proof (induction i n k rule: range_from.induct)
  case (1 i stop step)
  show ?case
  proof (cases "step = 0 \<or> stop \<le> i")
    case True
    then have "range_from i stop step = []" by (subst range_from.simps) simp
    then show ?thesis using 1(2) by simp
  next
    case False
    then have eq: "range_from i stop step = i # range_from (i + step) stop step"
      by (subst range_from.simps) simp
    then show ?thesis using 1 False by auto
  qed
qed


lemma ceiling_div_nat:
  assumes "0 < k"
  shows "\<lceil>real n / real k\<rceil> = int ((n + k - 1) div k)"
proof -
  define m where "m = (n + k - 1) div k"
  have "m * k \<le> n + k - 1"
    unfolding m_def by (rule div_times_less_eq_dividend)
  then have lo: "m * k < n + k" using assms by arith
  have "n + k - 1 < k + m * k"
    unfolding m_def using assms by (rule dividend_less_div_times)
  then have hi: "n \<le> m * k" using assms by arith
  have "real (m * k) < real (n + k)" using lo by (simp only: of_nat_less_iff)
  then have lo': "(real m - 1) * real k < real n" by (simp add: algebra_simps)
  have "real n \<le> real (m * k)" using hi by (simp only: of_nat_le_iff)
  then have hi': "real n \<le> real m * real k" by simp
  have kpos: "0 < real k" using assms by simp
  have "of_int (int m) - 1 < real n / real k"
    using lo' kpos by (simp add: pos_less_divide_eq)
  moreover have "real n / real k \<le> of_int (int m)"
    using hi' kpos by (simp add: pos_divide_le_eq)
  ultimately have "\<lceil>real n / real k\<rceil> = int m" by (rule ceiling_unique)
  then show ?thesis by (simp add: m_def)
qed

lemma chunked_pos:
  assumes "0 < k"
  shows "chunked xs k = Inr (map (\<lambda>i. slice xs i (i + nat k)) (range_from 0 (length xs) (nat k)))"
proof (cases "xs = []")
  case True
  have "range_from 0 0 (nat k) = []" by (subst range_from.simps) simp
  then show ?thesis using True assms by (simp add: chunked_def py_range_def)
next
  case False
  then show ?thesis using assms by (simp add: chunked_def py_range_def)
qed

text \<open>
  C7. For every list \<open>xs\<close> and every positive chunk size \<open>k\<close>, \<open>chunked xs k\<close> returns a
  list of chunks whose concatenation is \<open>xs\<close>; every chunk is non-empty and has at most
  \<open>k\<close> elements; chunk \<open>j\<close> is the contiguous piece \<open>xs[j*k : j*k + k]\<close>; there are
  exactly \<open>\<lceil>|xs| / k\<rceil>\<close> chunks; and the empty list gives no chunk at all.
\<close>

theorem chunked_partition:
  assumes "0 < k"
  shows "\<exists>cs. chunked xs k = Inr cs
            \<and> concat cs = xs
            \<and> (\<forall>c \<in> set cs. c \<noteq> [] \<and> int (length c) \<le> k)
            \<and> (\<forall>j < length cs. cs ! j = slice xs (j * nat k) (j * nat k + nat k))
            \<and> int (length cs) = \<lceil>real (length xs) / real_of_int k\<rceil>
            \<and> (xs = [] \<longrightarrow> cs = [])"
proof -
  define n where "n = nat k"
  have npos: "0 < n" and kn: "k = int n" using assms by (simp_all add: n_def)
  define starts where "starts = range_from 0 (length xs) n"
  define cs where "cs = map (\<lambda>i. slice xs i (i + n)) starts"
  have c0: "chunked xs k = Inr cs"
    using chunked_pos[OF assms, of xs] by (simp add: cs_def starts_def n_def)
  have c1: "concat cs = xs"
    using concat_range_from[OF npos, of xs 0] by (simp add: cs_def starts_def)
  have c2: "\<forall>c \<in> set cs. c \<noteq> [] \<and> int (length c) \<le> k"
  proof
    fix c assume "c \<in> set cs"
    then obtain i where i: "i \<in> set starts" "c = slice xs i (i + n)"
      by (auto simp: cs_def)
    then have "i < length xs" using set_range_from by (simp add: starts_def)
    then show "c \<noteq> [] \<and> int (length c) \<le> k"
      using i npos by (simp add: slice_def kn)
  qed
  have len: "length cs = (length xs + n - 1) div n"
    using length_range_from[OF npos, of 0 "length xs"] by (simp add: cs_def starts_def)
  have c3: "\<forall>j < length cs. cs ! j = slice xs (j * n) (j * n + n)"
    using nth_range_from[OF npos, of _ 0 "length xs"] by (simp add: cs_def starts_def)
  have c4: "int (length cs) = \<lceil>real (length xs) / real_of_int k\<rceil>"
    using ceiling_div_nat[OF npos, of "length xs"] len by (simp add: kn)
  have c5: "xs = [] \<longrightarrow> cs = []" using c1 len npos by auto
  show ?thesis using c0 c1 c2 c3 c4 c5 unfolding n_def by blast
qed

theorem chunked_partition_witness:
  "(0::int) < 3
   \<and> (\<exists>cs. chunked ''abcdefg'' 3 = Inr cs \<and> concat cs = ''abcdefg'' \<and> length cs = 3)"
proof -
  have pos: "(0::int) < 3" by simp
  obtain cs where cs: "chunked ''abcdefg'' 3 = Inr cs" "concat cs = ''abcdefg''"
      "int (length cs) = \<lceil>real (length ''abcdefg'') / real_of_int 3\<rceil>"
    using chunked_partition [OF pos, of "''abcdefg''"] by blast
  have "\<lceil>real (length ''abcdefg'') / real_of_int 3\<rceil> = 3"
    by (simp add: ceiling_divide_eq_div_numeral)
  then have "length cs = 3" using cs(3) by simp
  then show ?thesis using cs(1,2) by simp
qed

subsection \<open>De-duplication\<close>

lemma dedup_loop_acc: "dedup_loop xs seen unique = unique @ dedup_loop xs seen []"
proof (induction xs arbitrary: seen unique)
  case Nil
  then show ?case by simp
next
  case (Cons x xs)
  show ?case
    using Cons.IH[of "insert x seen" "unique @ [x]"] Cons.IH[of "insert x seen" "[x]"]
          Cons.IH[of seen unique]
    by simp
qed

lemma dedup_loop_append:
  "dedup_loop (xs @ ys) seen [] = dedup_loop xs seen [] @ dedup_loop ys (seen \<union> set xs) []"
proof (induction xs arbitrary: seen)
  case Nil
  then show ?case by simp
next
  case (Cons x xs)
  show ?case
  proof (cases "x \<in> seen")
    case True
    then have "insert x (seen \<union> set xs) = seen \<union> set xs" by auto
    then show ?thesis using True Cons.IH[of seen] by simp
  next
    case False
    have "dedup_loop ((x # xs) @ ys) seen [] = x # dedup_loop (xs @ ys) (insert x seen) []"
      using False dedup_loop_acc[of "xs @ ys" "insert x seen" "[x]"] by simp
    moreover have "dedup_loop (x # xs) seen [] = x # dedup_loop xs (insert x seen) []"
      using False dedup_loop_acc[of xs "insert x seen" "[x]"] by simp
    ultimately show ?thesis using Cons.IH[of "insert x seen"] by simp
  qed
qed

lemma dedup_snoc: "dedup (xs @ [x]) = dedup xs @ (if x \<in> set xs then [] else [x])"
  by (simp add: dedup_def dedup_loop_append)

lemma set_dedup: "set (dedup xs) = set xs"
  by (induction xs rule: rev_induct) (auto simp: dedup_snoc, simp add: dedup_def)

lemma distinct_dedup: "distinct (dedup xs)"
  by (induction xs rule: rev_induct) (auto simp: dedup_snoc set_dedup, simp add: dedup_def)

lemma first_index_append: "a \<in> set xs \<Longrightarrow> first_index (xs @ ys) a = first_index xs a"
  by (induction xs) auto

lemma first_index_less: "a \<in> set xs \<Longrightarrow> first_index xs a < length xs"
  by (induction xs) auto

lemma first_index_new: "a \<notin> set xs \<Longrightarrow> first_index (xs @ [a]) a = length xs"
  by (induction xs) auto

lemma dedup_first_seen:
  "sorted_wrt (\<lambda>a b. first_index xs a < first_index xs b) (dedup xs)"
proof (induction xs rule: rev_induct)
  case Nil
  then show ?case by (simp add: dedup_def)
next
  case (snoc x xs)
  have old: "sorted_wrt (\<lambda>a b. first_index (xs @ [x]) a < first_index (xs @ [x]) b) (dedup xs)"
    using snoc by (rule sorted_wrt_mono_rel[rotated]) (simp add: set_dedup first_index_append)
  show ?case
  proof (cases "x \<in> set xs")
    case True
    then show ?thesis using old by (simp add: dedup_snoc)
  next
    case False
    have "\<forall>a \<in> set (dedup xs). first_index (xs @ [x]) a < first_index (xs @ [x]) x"
      using False by (simp add: set_dedup first_index_append first_index_new first_index_less)
    then show ?thesis using old False by (simp add: dedup_snoc sorted_wrt_append)
  qed
qed

lemma count_dedup: "count_list (dedup xs) x = (if x \<in> set xs then 1 else 0)"
proof (induction xs rule: rev_induct)
  case Nil
  then show ?case by (simp add: dedup_def)
next
  case (snoc y ys)
  then show ?case by (auto simp: dedup_snoc)
qed

lemma count_list_distinct:
  "distinct ys \<Longrightarrow> count_list ys x = (if x \<in> set ys then 1 else 0)"
  by (induction ys) auto

text \<open>
  C6, as the scripts have it. The list of the team members is de-duplicated by the loop:
  the result has every distinct value of the input exactly once, in the order in which
  the values are first seen. The list of the cost-center users is de-duplicated through
  a set: every result has every distinct value exactly once, in an order that the
  script does not fix.
\<close>

theorem dedup_first_seen_order:
  "distinct (dedup xs)
   \<and> set (dedup xs) = set xs
   \<and> (\<forall>x. count_list (dedup xs) x = (if x \<in> set xs then 1 else 0))
   \<and> sorted_wrt (\<lambda>a b. first_index xs a < first_index xs b) (dedup xs)
   \<and> (\<forall>ys. list_of_set xs ys \<longrightarrow>
          (\<forall>x. count_list ys x = (if x \<in> set xs then 1 else 0)))"
proof -
  have "count_list ys x = (if x \<in> set xs then 1 else 0)" if "list_of_set xs ys" for ys x
  proof -
    have d: "distinct ys" and s: "set ys = set xs" using that by (simp_all add: list_of_set_def)
    show ?thesis using count_list_distinct[OF d, of x] s by simp
  qed
  then show ?thesis
    by (simp add: distinct_dedup set_dedup count_dedup dedup_first_seen)
qed

theorem dedup_first_seen_order_witness:
  "list_of_set [''bob'', ''alice'', ''bob''] [''alice'', ''bob'']
   \<and> count_list [''alice'', ''bob''] ''bob'' = 1
   \<and> dedup [''bob'', ''alice'', ''bob''] = [''bob'', ''alice'']"
proof -
  have l: "list_of_set [''bob'', ''alice'', ''bob''] [''alice'', ''bob'']"
    by (auto simp: list_of_set_def)
  have "count_list [''alice'', ''bob''] ''bob'' = 1"
    using dedup_first_seen_order [of "[''bob'', ''alice'', ''bob'']"] l by simp
  moreover have "dedup [''bob'', ''alice'', ''bob''] = [''bob'', ''alice'']"
    by (simp add: dedup_def)
  ultimately show ?thesis using l by simp
qed

text \<open>
  C6 as the claim has it fails for the cost-center users: for two users listed as
  \<open>bob\<close>, \<open>alice\<close>, the list \<open>alice\<close>, \<open>bob\<close> is a result of \<^verbatim>\<open>fetch_cost_center_users\<close>,
  and it is not in first-seen order.
\<close>

theorem cost_center_order_counterexample:
  "fetch_cost_center_users ''B'' ''E'' ''C''
     \<lparr> status_code = 200, body = [], headers = Map.empty,
       json_body = Some (JDict [(''resources'',
                     JList [JDict [(''type'', JStr ''User''), (''name'', JStr ''bob'')],
                            JDict [(''type'', JStr ''User''), (''name'', JStr ''alice'')]])]) \<rparr>
     (Inr [''alice'', ''bob''])
   \<and> \<not> sorted_wrt (\<lambda>a b. first_index [''bob'', ''alice''] a < first_index [''bob'', ''alice''] b)
         [''alice'', ''bob'']"
  by (auto simp: fetch_cost_center_users_def list_of_set_def dict_get_def)

subsection \<open>Mutation outcomes\<close>

lemma lower_replicate_x: "lower (replicate n (CHR ''x'')) = replicate n (CHR ''x'')"
  by (simp add: lower_def lower_char_def char_code_def)

lemma not_sublist_replicate:
  assumes "m \<noteq> []" "hd m \<noteq> c"
  shows "\<not> sublist m (replicate n c)"
proof
  assume "sublist m (replicate n c)"
  then have "set m \<subseteq> set (replicate n c)" by (rule set_mono_sublist)
  moreover have "hd m \<in> set m" using assms(1) by simp
  ultimately show False using assms(2) by auto
qed

lemma str_int_409: "str_int 409 = ''409''"
  by code_simp

text \<open>
  C2, as the scripts have it. A status in \<open>{200, 201, 202, 204}\<close> is a success. For 409
  and 422 the markers are looked for in the first 500 characters of the body, in lower
  case: with \<open>already\<close> or \<open>exists\<close> there, both scripts skip the user as already present;
  with \<open>conflict\<close> (or \<open>has already been taken\<close>) there,
  \<^verbatim>\<open>sync_team_to_cost_center.py\<close> does; with none of the four markers there, both skip
  the user with a message that carries the first 500 characters of the raw body. Every
  other status raises the \<^verbatim>\<open>SystemExit\<close> that ends the run.
\<close>

theorem add_user_outcome:
  fixes resp :: response
  shows
  "(status_code resp \<in> {200, 201, 202, 204} \<longrightarrow>
      add_user_to_cost_center_exact base enterprise cc login resp = Inr (True, ''Added '' @ login)
    \<and> add_user_to_cost_center base enterprise cc login resp =
        Inr (True, ''Added '' @ login @ '' (HTTP '' @ str_int (status_code resp) @ '')''))
 \<and> (status_code resp \<in> {409, 422}
      \<and> (sublist ''already'' (lower (take 500 (body resp)))
           \<or> sublist ''exists'' (lower (take 500 (body resp)))) \<longrightarrow>
      add_user_to_cost_center_exact base enterprise cc login resp =
        Inr (False, ''Skip '' @ login @ '': already exists'')
    \<and> add_user_to_cost_center base enterprise cc login resp =
        Inr (False, ''Skip '' @ login @ '': already in cost center (HTTP ''
                      @ str_int (status_code resp) @ '')''))
 \<and> (status_code resp \<in> {409, 422}
      \<and> (sublist ''conflict'' (lower (take 500 (body resp)))
           \<or> sublist ''has already been taken'' (lower (take 500 (body resp)))) \<longrightarrow>
      add_user_to_cost_center base enterprise cc login resp =
        Inr (False, ''Skip '' @ login @ '': already in cost center (HTTP ''
                      @ str_int (status_code resp) @ '')''))
 \<and> (status_code resp \<in> {409, 422}
      \<and> \<not> sublist ''already'' (lower (take 500 (body resp)))
      \<and> \<not> sublist ''exists'' (lower (take 500 (body resp)))
      \<and> \<not> sublist ''conflict'' (lower (take 500 (body resp)))
      \<and> \<not> sublist ''has already been taken'' (lower (take 500 (body resp))) \<longrightarrow>
      add_user_to_cost_center_exact base enterprise cc login resp =
        Inr (False, ''Skip '' @ login @ '': '' @ take 500 (body resp))
    \<and> add_user_to_cost_center base enterprise cc login resp =
        Inr (False, ''Skip '' @ login @ '': not added (HTTP '' @ str_int (status_code resp)
                      @ '') body='' @ take 500 (body resp)))
 \<and> (status_code resp \<notin> {200, 201, 202, 204, 409, 422} \<longrightarrow>
      add_user_to_cost_center_exact base enterprise cc login resp =
        Inl (SystemExit (AddFailed login (resources_url base enterprise cc ''/resources'')
                           (status_code resp) (take 1000 (body resp))))
    \<and> add_user_to_cost_center base enterprise cc login resp =
        Inl (SystemExit (AddFailed login (resources_url base enterprise cc ''/resource'')
                           (status_code resp) (take 1000 (body resp)))))"
  unfolding add_user_to_cost_center_exact_def add_user_to_cost_center_def success_codes_def Let_def
  by auto

theorem add_user_outcome_witness:
  "add_user_to_cost_center_exact ''B'' ''E'' ''C'' ''u''
     \<lparr> status_code = 201, body = [], headers = Map.empty, json_body = None \<rparr>
     = Inr (True, ''Added u'')
   \<and> add_user_to_cost_center_exact ''B'' ''E'' ''C'' ''u''
     \<lparr> status_code = 409, body = ''User already exists'', headers = Map.empty,
       json_body = None \<rparr>
     = Inr (False, ''Skip u: already exists'')
   \<and> add_user_to_cost_center ''B'' ''E'' ''C'' ''u''
     \<lparr> status_code = 409, body = ''Conflict'', headers = Map.empty, json_body = None \<rparr>
     = Inr (False, ''Skip u: already in cost center (HTTP 409)'')
   \<and> add_user_to_cost_center_exact ''B'' ''E'' ''C'' ''u''
     \<lparr> status_code = 422, body = ''Invalid'', headers = Map.empty, json_body = None \<rparr>
     = Inr (False, ''Skip u: Invalid'')
   \<and> add_user_to_cost_center_exact ''B'' ''E'' ''C'' ''u''
     \<lparr> status_code = 500, body = ''boom'', headers = Map.empty, json_body = None \<rparr>
     = Inl (SystemExit (AddFailed ''u''
              ''B/enterprises/E/settings/billing/cost-centers/C/resources'' 500 ''boom''))"
proof -
  have m1: "sublist ''already'' (lower (take 500 ''User already exists''))" by code_simp
  have m2: "sublist ''conflict'' (lower (take 500 ''Conflict''))" by code_simp
  have m3: "\<not> sublist ''already'' (lower (take 500 ''Invalid''))"
           "\<not> sublist ''exists'' (lower (take 500 ''Invalid''))"
           "\<not> sublist ''conflict'' (lower (take 500 ''Invalid''))"
           "\<not> sublist ''has already been taken'' (lower (take 500 ''Invalid''))"
    by code_simp+
  show ?thesis
    using add_user_outcome [of "\<lparr> status_code = 201, body = [], headers = Map.empty,
                                   json_body = None \<rparr>" "''B''" "''E''" "''C''" "''u''"]
          add_user_outcome [of "\<lparr> status_code = 409, body = ''User already exists'',
                                   headers = Map.empty, json_body = None \<rparr>"
                               "''B''" "''E''" "''C''" "''u''"]
          add_user_outcome [of "\<lparr> status_code = 409, body = ''Conflict'',
                                   headers = Map.empty, json_body = None \<rparr>"
                               "''B''" "''E''" "''C''" "''u''"]
          add_user_outcome [of "\<lparr> status_code = 422, body = ''Invalid'',
                                   headers = Map.empty, json_body = None \<rparr>"
                               "''B''" "''E''" "''C''" "''u''"]
          add_user_outcome [of "\<lparr> status_code = 500, body = ''boom'',
                                   headers = Map.empty, json_body = None \<rparr>"
                               "''B''" "''E''" "''C''" "''u''"]
          m1 m2 m3
    by (simp add: str_int_409 resources_url_def)
qed

text \<open>
  C2 as the claim has it fails twice. A 409 whose body holds \<open>already\<close> after the first
  500 characters is not reported as already present; and
  \<^verbatim>\<open>sync_team_cost_center_exact.py\<close> does not look for \<open>conflict\<close>.
\<close>

theorem add_marker_counterexample:
  "sublist ''already'' (lower (replicate 500 (CHR ''x'') @ ''already''))
   \<and> add_user_to_cost_center ''B'' ''E'' ''C'' ''u''
        \<lparr> status_code = 409, body = replicate 500 (CHR ''x'') @ ''already'',
          headers = Map.empty, json_body = None \<rparr>
       = Inr (False, ''Skip u: not added (HTTP 409) body='' @ replicate 500 (CHR ''x''))
   \<and> sublist ''conflict'' (lower ''Conflict'')
   \<and> add_user_to_cost_center_exact ''B'' ''E'' ''C'' ''u''
        \<lparr> status_code = 409, body = ''Conflict'', headers = Map.empty, json_body = None \<rparr>
       = Inr (False, ''Skip u: Conflict'')"
proof -
  have a: "sublist ''already'' (lower (replicate 500 (CHR ''x'') @ ''already''))"
    by (simp add: lower_def lower_char_def char_code_def)
  have b: "add_user_to_cost_center ''B'' ''E'' ''C'' ''u''
        \<lparr> status_code = 409, body = replicate 500 (CHR ''x'') @ ''already'',
          headers = Map.empty, json_body = None \<rparr>
       = Inr (False, ''Skip u: not added (HTTP 409) body='' @ replicate 500 (CHR ''x''))"
    unfolding add_user_to_cost_center_def Let_def success_codes_def
    by (simp add: lower_replicate_x not_sublist_replicate str_int_409)
  have lc: "lower ''Conflict'' = ''conflict''" by code_simp
  have c: "sublist ''conflict'' (lower ''Conflict'')" by code_simp
  have n: "\<not> sublist ''already'' ''conflict''" "\<not> sublist ''exists'' ''conflict''"
    by code_simp+
  have d: "add_user_to_cost_center_exact ''B'' ''E'' ''C'' ''u''
        \<lparr> status_code = 409, body = ''Conflict'', headers = Map.empty, json_body = None \<rparr>
       = Inr (False, ''Skip u: Conflict'')"
    unfolding add_user_to_cost_center_exact_def Let_def success_codes_def
    using n by (simp add: lc)
  show ?thesis using a b c d by blast
qed

text \<open>
  C3, as the script has it. A status in \<open>{200, 201, 202, 204}\<close> is a success; a 400 with
  \<open>no resources\<close> in the first 500 characters of the body, in lower case, skips the user
  as not present; any other 400 skips the user with the first 500 characters of the raw
  body; a 404 skips the user as not found; and the call raises, with the \<^verbatim>\<open>SystemExit\<close>
  that ends the run, exactly when the status is none of these.
\<close>

theorem remove_user_outcome:
  fixes resp :: response
  shows
  "(status_code resp \<in> {200, 201, 202, 204} \<longrightarrow>
      remove_user_from_cost_center base enterprise cc login resp =
        Inr (True, ''Removed '' @ login))
 \<and> (status_code resp = 400 \<and> sublist ''no resources'' (lower (take 500 (body resp))) \<longrightarrow>
      remove_user_from_cost_center base enterprise cc login resp =
        Inr (False, ''Skip '' @ login
                      @ '': not in cost center (API says no resources to remove)''))
 \<and> (status_code resp = 400 \<and> \<not> sublist ''no resources'' (lower (take 500 (body resp))) \<longrightarrow>
      remove_user_from_cost_center base enterprise cc login resp =
        Inr (False, ''Skip '' @ login @ '': '' @ take 500 (body resp)))
 \<and> (status_code resp = 404 \<longrightarrow>
      remove_user_from_cost_center base enterprise cc login resp =
        Inr (False, ''Skip '' @ login @ '': endpoint or user not found (HTTP 404)''))
 \<and> ((\<exists>e. remove_user_from_cost_center base enterprise cc login resp = Inl e)
        \<longleftrightarrow> status_code resp \<notin> {200, 201, 202, 204, 400, 404})
 \<and> (status_code resp \<notin> {200, 201, 202, 204, 400, 404} \<longrightarrow>
      remove_user_from_cost_center base enterprise cc login resp =
        Inl (SystemExit (RemoveFailed login (resources_url base enterprise cc ''/resource'')
                           (status_code resp) (take 1000 (body resp)))))"
  unfolding remove_user_from_cost_center_def success_codes_def Let_def
  by auto

theorem remove_user_outcome_witness:
  "remove_user_from_cost_center ''B'' ''E'' ''C'' ''u''
     \<lparr> status_code = 204, body = [], headers = Map.empty, json_body = None \<rparr>
     = Inr (True, ''Removed u'')
   \<and> remove_user_from_cost_center ''B'' ''E'' ''C'' ''u''
     \<lparr> status_code = 400, body = ''No resources to remove'', headers = Map.empty,
       json_body = None \<rparr>
     = Inr (False, ''Skip u: not in cost center (API says no resources to remove)'')
   \<and> remove_user_from_cost_center ''B'' ''E'' ''C'' ''u''
     \<lparr> status_code = 400, body = ''Bad request'', headers = Map.empty, json_body = None \<rparr>
     = Inr (False, ''Skip u: Bad request'')
   \<and> remove_user_from_cost_center ''B'' ''E'' ''C'' ''u''
     \<lparr> status_code = 404, body = [], headers = Map.empty, json_body = None \<rparr>
     = Inr (False, ''Skip u: endpoint or user not found (HTTP 404)'')
   \<and> remove_user_from_cost_center ''B'' ''E'' ''C'' ''u''
     \<lparr> status_code = 500, body = ''boom'', headers = Map.empty, json_body = None \<rparr>
     = Inl (SystemExit (RemoveFailed ''u''
              ''B/enterprises/E/settings/billing/cost-centers/C/resource'' 500 ''boom''))"
proof -
  have m1: "sublist ''no resources'' (lower (take 500 ''No resources to remove''))"
    by code_simp
  have m2: "\<not> sublist ''no resources'' (lower (take 500 ''Bad request''))"
    by code_simp
  show ?thesis
    using remove_user_outcome [of "\<lparr> status_code = 204, body = [], headers = Map.empty,
                                      json_body = None \<rparr>" "''B''" "''E''" "''C''" "''u''"]
          remove_user_outcome [of "\<lparr> status_code = 400, body = ''No resources to remove'',
                                      headers = Map.empty, json_body = None \<rparr>"
                                  "''B''" "''E''" "''C''" "''u''"]
          remove_user_outcome [of "\<lparr> status_code = 400, body = ''Bad request'',
                                      headers = Map.empty, json_body = None \<rparr>"
                                  "''B''" "''E''" "''C''" "''u''"]
          remove_user_outcome [of "\<lparr> status_code = 404, body = [], headers = Map.empty,
                                      json_body = None \<rparr>" "''B''" "''E''" "''C''" "''u''"]
          remove_user_outcome [of "\<lparr> status_code = 500, body = ''boom'',
                                      headers = Map.empty, json_body = None \<rparr>"
                                  "''B''" "''E''" "''C''" "''u''"]
          m1 m2
    by (simp add: resources_url_def)
qed

text \<open>
  C3 as the claim has it fails for a 400 whose body holds \<open>no resources\<close> only after the
  first 500 characters: the user is skipped with the raw body, not as not present.
\<close>

theorem remove_marker_counterexample:
  "sublist ''no resources'' (lower (replicate 500 (CHR ''x'') @ ''no resources''))
   \<and> remove_user_from_cost_center ''B'' ''E'' ''C'' ''u''
        \<lparr> status_code = 400, body = replicate 500 (CHR ''x'') @ ''no resources'',
          headers = Map.empty, json_body = None \<rparr>
       = Inr (False, ''Skip u: '' @ replicate 500 (CHR ''x''))"
proof -
  have a: "sublist ''no resources'' (lower (replicate 500 (CHR ''x'') @ ''no resources''))"
    by (simp add: lower_def lower_char_def char_code_def)
  have b: "remove_user_from_cost_center ''B'' ''E'' ''C'' ''u''
        \<lparr> status_code = 400, body = replicate 500 (CHR ''x'') @ ''no resources'',
          headers = Map.empty, json_body = None \<rparr>
       = Inr (False, ''Skip u: '' @ replicate 500 (CHR ''x''))"
    unfolding remove_user_from_cost_center_def Let_def success_codes_def
    by (simp add: lower_replicate_x not_sublist_replicate)
  show ?thesis using a b by blast
qed

text \<open>
  A hard failure ends the run: when the response for one login of the bucket has a
  status outside the success and skip codes, the whole phase ends with the
  \<^verbatim>\<open>SystemExit\<close>, and when none has, the phase returns one more row for each login.
\<close>

lemma add_user_exact_returns:
  "status_code resp \<in> {200, 201, 202, 204, 409, 422} \<Longrightarrow>
   \<exists>ok msg. add_user_to_cost_center_exact base enterprise cc login resp = Inr (ok, msg)"
  unfolding add_user_to_cost_center_exact_def success_codes_def Let_def by auto

lemma add_user_exact_raises:
  "status_code resp \<notin> {200, 201, 202, 204, 409, 422} \<Longrightarrow>
   \<exists>m. add_user_to_cost_center_exact base enterprise cc login resp = Inl (SystemExit m)"
  unfolding add_user_to_cost_center_exact_def success_codes_def Let_def by auto

lemma remove_user_returns:
  "status_code resp \<in> {200, 201, 202, 204, 400, 404} \<Longrightarrow>
   \<exists>ok msg. remove_user_from_cost_center base enterprise cc login resp = Inr (ok, msg)"
  unfolding remove_user_from_cost_center_def success_codes_def Let_def by auto

lemma remove_user_raises:
  "status_code resp \<notin> {200, 201, 202, 204, 400, 404} \<Longrightarrow>
   \<exists>m. remove_user_from_cost_center base enterprise cc login resp = Inl (SystemExit m)"
  unfolding remove_user_from_cost_center_def success_codes_def Let_def by auto

lemma add_users_abort:
  assumes "x \<in> set logins" "status_code (post x) \<notin> {200, 201, 202, 204, 409, 422}"
  shows "\<exists>m. add_users base enterprise cc post logins results = Inl (SystemExit m)"
  using assms(1)
proof (induction logins arbitrary: results)
  case Nil
  then show ?case by simp
next
  case (Cons y ys)
  show ?case
  proof (cases "status_code (post y) \<in> {200, 201, 202, 204, 409, 422}")
    case True
    then obtain ok msg where
      "add_user_to_cost_center_exact base enterprise cc y (post y) = Inr (ok, msg)"
      using add_user_exact_returns by blast
    moreover have "x \<in> set ys" using Cons.prems True assms(2) by auto
    ultimately show ?thesis using Cons.IH by simp
  next
    case False
    then obtain m where
      "add_user_to_cost_center_exact base enterprise cc y (post y) = Inl (SystemExit m)"
      using add_user_exact_raises by blast
    then show ?thesis by simp
  qed
qed

lemma add_users_complete:
  assumes "\<forall>x \<in> set logins. status_code (post x) \<in> {200, 201, 202, 204, 409, 422}"
  shows "\<exists>rows. add_users base enterprise cc post logins results = Inr (results @ rows)
               \<and> map row_login rows = logins"
  using assms
proof (induction logins arbitrary: results)
  case Nil
  then show ?case by simp
next
  case (Cons y ys)
  have "status_code (post y) \<in> {200, 201, 202, 204, 409, 422}"
    using Cons.prems by simp
  then obtain ok msg where r:
    "add_user_to_cost_center_exact base enterprise cc y (post y) = Inr (ok, msg)"
    using add_user_exact_returns by blast
  define r0 where "r0 = \<lparr> row_login = y, row_action = ''add'',
                           row_status = (if ok then ''success'' else ''skipped''),
                           row_message = msg \<rparr>"
  obtain rows where "add_users base enterprise cc post ys (results @ [r0])
                       = Inr ((results @ [r0]) @ rows)" "map row_login rows = ys"
    using Cons.IH[of "results @ [r0]"] Cons.prems by auto
  then have "add_users base enterprise cc post (y # ys) results = Inr (results @ (r0 # rows))
             \<and> map row_login (r0 # rows) = y # ys"
    using r by (simp add: r0_def)
  then show ?case by (rule exI[of _ "r0 # rows"])
qed

lemma remove_users_abort:
  assumes "x \<in> set logins" "status_code (delete x) \<notin> {200, 201, 202, 204, 400, 404}"
  shows "\<exists>m. remove_users base enterprise cc delete logins results = Inl (SystemExit m)"
  using assms(1)
proof (induction logins arbitrary: results)
  case Nil
  then show ?case by simp
next
  case (Cons y ys)
  show ?case
  proof (cases "status_code (delete y) \<in> {200, 201, 202, 204, 400, 404}")
    case True
    then obtain ok msg where
      "remove_user_from_cost_center base enterprise cc y (delete y) = Inr (ok, msg)"
      using remove_user_returns by blast
    moreover have "x \<in> set ys" using Cons.prems True assms(2) by auto
    ultimately show ?thesis using Cons.IH by simp
  next
    case False
    then obtain m where
      "remove_user_from_cost_center base enterprise cc y (delete y) = Inl (SystemExit m)"
      using remove_user_raises by blast
    then show ?thesis by simp
  qed
qed

subsection \<open>Fetching the cost-center users\<close>

text \<open>
  C10. When the response to the cost-center \<^verbatim>\<open>GET\<close> has status 404,
  \<^verbatim>\<open>fetch_cost_center_users\<close> returns the empty list, its only outcome, so the run goes
  on and the plan puts every team member in the bucket to add; for every other status
  that is not 200 the only outcome is the \<^verbatim>\<open>SystemExit\<close> that ends the run.
\<close>

theorem cost_center_fetch_status:
  fixes resp :: response
  shows
  "(status_code resp = 404 \<longrightarrow>
      (\<forall>out. fetch_cost_center_users base enterprise cc resp out \<longleftrightarrow> out = Inr [])
    \<and> users_to_add (sync_plan team_members []) = set team_members
    \<and> users_to_remove (sync_plan team_members []) = {}
    \<and> users_already_synced (sync_plan team_members []) = {})
 \<and> (status_code resp \<noteq> 404 \<and> status_code resp \<noteq> 200 \<longrightarrow>
      (\<forall>out. fetch_cost_center_users base enterprise cc resp out \<longleftrightarrow>
         out = Inl (SystemExit (CostCenterFetchFailed (resources_url base enterprise cc [])
                                  (status_code resp) (take 1000 (body resp))))))"
  unfolding fetch_cost_center_users_def sync_plan_def Let_def by simp

theorem cost_center_fetch_status_witness:
  "fetch_cost_center_users ''B'' ''E'' ''C''
     \<lparr> status_code = 404, body = ''Not Found'', headers = Map.empty, json_body = None \<rparr>
     (Inr [])
   \<and> users_to_add (sync_plan [''alice'', ''bob''] []) = {''alice'', ''bob''}
   \<and> fetch_cost_center_users ''B'' ''E'' ''C''
     \<lparr> status_code = 500, body = ''boom'', headers = Map.empty, json_body = None \<rparr>
     (Inl (SystemExit (CostCenterFetchFailed
             ''B/enterprises/E/settings/billing/cost-centers/C'' 500 ''boom'')))"
  using cost_center_fetch_status [of "\<lparr> status_code = 404, body = ''Not Found'',
                                        headers = Map.empty, json_body = None \<rparr>"
                                     "''B''" "''E''" "''C''" "[''alice'', ''bob'']"]
        cost_center_fetch_status [of "\<lparr> status_code = 500, body = ''boom'',
                                        headers = Map.empty, json_body = None \<rparr>"
                                     "''B''" "''E''" "''C''" "[]"]
  by (simp add: resources_url_def)

subsection \<open>The retrying request\<close>

text \<open>
  The delay and the retry policy for responses whose \<^verbatim>\<open>Retry-After\<close> header is well
  formed. A header of decimal digits gives its value as the delay, whatever the attempt;
  an absent header, or one that \<^verbatim>\<open>isdigit\<close> rejects (the empty string too), gives
  \<open>min max_backoff_seconds (2 ^ attempt)\<close> plus the jitter. With the default ceiling of 8
  the call returns the first response that is neither a 429 nor a 403 with the
  rate-limit marker, after one sleep for each response before it; and when all 8
  responses are retryable it returns the last one, after 8 sleeps.
\<close>

lemma retry_delay_header:
  assumes "headers resp ''Retry-After'' = Some s" "s \<noteq> []" "list_all is_decimal_char s"
  shows "retry_delay resp max_backoff_seconds attempt jitter
           = Inr (real (foldl (\<lambda>acc c. 10 * acc + (char_code c - 48)) 0 s))"
proof -
  have "list_all is_digit_char s"
    using assms(3) by (simp add: list_all_iff is_digit_char_def)
  then have "isdigit s" using assms(2) by (simp add: isdigit_def)
  then show ?thesis using assms by (simp add: retry_delay_def py_int_def)
qed

lemma retry_delay_backoff:
  assumes "headers resp ''Retry-After'' = None
           \<or> (\<exists>s. headers resp ''Retry-After'' = Some s \<and> \<not> isdigit s)"
  shows "retry_delay resp max_backoff_seconds attempt jitter
           = Inr (real_of_int (min max_backoff_seconds (2 ^ attempt)) + jitter)"
  using assms by (auto simp: retry_delay_def)

lemma backoff_loop_exhausted:
  assumes "\<forall>a. attempt \<le> a \<and> a < attempt + left \<longrightarrow>
             (status_code (send a) = 429
              \<or> status_code (send a) = 403 \<and> is_secondary_rate_limit (send a))
             \<and> retry_delay (send a) mb a (jitter a) = Inr (d a) \<and> 0 \<le> d a"
  shows "backoff_loop send jitter mb left attempt last' sleeps
           = (case (if left = 0 then last' else Some (send (attempt + left - 1))) of
                None \<Rightarrow> Inl AssertionError
              | Some r \<Rightarrow> Inr r,
              sleeps @ map d [attempt ..< attempt + left])"
  using assms
proof (induction left arbitrary: attempt last' sleeps)
  case 0
  then show ?case by (simp split: option.splits)
next
  case (Suc left)
  have here: "status_code (send attempt) = 429
              \<or> status_code (send attempt) = 403 \<and> is_secondary_rate_limit (send attempt)"
       "retry_delay (send attempt) mb attempt (jitter attempt) = Inr (d attempt)"
       "0 \<le> d attempt"
    using Suc.prems by simp_all
  have step: "backoff_loop send jitter mb (Suc left) attempt last' sleeps
        = backoff_loop send jitter mb left (Suc attempt) (Some (send attempt))
            (sleeps @ [d attempt])"
    using here by (auto simp: Let_def)
  have rest: "backoff_loop send jitter mb left (Suc attempt) (Some (send attempt))
            (sleeps @ [d attempt])
        = (case (if left = 0 then Some (send attempt)
                 else Some (send (Suc attempt + left - 1))) of
                None \<Rightarrow> Inl AssertionError
              | Some r \<Rightarrow> Inr r,
              (sleeps @ [d attempt]) @ map d [Suc attempt ..< Suc attempt + left])"
    using Suc.prems by (intro Suc.IH) simp
  have "[attempt ..< attempt + Suc left] = attempt # [Suc attempt ..< Suc attempt + left]"
    by (simp add: upt_conv_Cons)
  then show ?case unfolding step rest by (cases "left = 0") simp_all
qed

lemma backoff_loop_returns:
  assumes "\<forall>a. attempt \<le> a \<and> a < attempt + k \<longrightarrow>
             (status_code (send a) = 429
              \<or> status_code (send a) = 403 \<and> is_secondary_rate_limit (send a))
             \<and> retry_delay (send a) mb a (jitter a) = Inr (d a) \<and> 0 \<le> d a"
      and "status_code (send (attempt + k)) \<noteq> 429"
      and "status_code (send (attempt + k)) = 403 \<longrightarrow>
             \<not> is_secondary_rate_limit (send (attempt + k))
             \<and> (\<exists>e. retry_delay (send (attempt + k)) mb (attempt + k) (jitter (attempt + k))
                        = Inr e)"
      and "k < left"
  shows "backoff_loop send jitter mb left attempt last' sleeps
           = (Inr (send (attempt + k)), sleeps @ map d [attempt ..< attempt + k])"
  using assms
proof (induction k arbitrary: attempt left last' sleeps)
  case 0
  then obtain left' where l: "left = Suc left'" by (cases left) simp_all
  show ?case using 0(2,3) unfolding l by (auto simp: Let_def)
next
  case (Suc k)
  then obtain left' where l: "left = Suc left'" "k < left'" by (cases left) simp_all
  have here: "status_code (send attempt) = 429
              \<or> status_code (send attempt) = 403 \<and> is_secondary_rate_limit (send attempt)"
       "retry_delay (send attempt) mb attempt (jitter attempt) = Inr (d attempt)"
       "0 \<le> d attempt"
    using Suc.prems(1) by simp_all
  have step: "backoff_loop send jitter mb left attempt last' sleeps
        = backoff_loop send jitter mb left' (Suc attempt) (Some (send attempt))
            (sleeps @ [d attempt])"
    unfolding l using here by (auto simp: Let_def)
  have rest: "backoff_loop send jitter mb left' (Suc attempt) (Some (send attempt))
            (sleeps @ [d attempt])
        = (Inr (send (Suc attempt + k)),
           (sleeps @ [d attempt]) @ map d [Suc attempt ..< Suc attempt + k])"
    using Suc.prems l(2) by (intro Suc.IH) simp_all
  have "[attempt ..< attempt + Suc k] = attempt # [Suc attempt ..< Suc attempt + k]"
    by (simp add: upt_conv_Cons)
  then show ?case unfolding step rest by simp
qed

lemma request_with_backoff_returns:
  assumes "k < 8"
      and "\<forall>a < k. (status_code (send a) = 429
                    \<or> status_code (send a) = 403 \<and> is_secondary_rate_limit (send a))
                   \<and> retry_delay (send a) mb a (jitter a) = Inr (d a) \<and> 0 \<le> d a"
      and "status_code (send k) \<noteq> 429"
      and "status_code (send k) = 403 \<longrightarrow>
             \<not> is_secondary_rate_limit (send k)
             \<and> (\<exists>e. retry_delay (send k) mb k (jitter k) = Inr e)"
  shows "request_with_backoff send jitter 8 mb = (Inr (send k), map d [0 ..< k])"
  unfolding request_with_backoff_def
  using backoff_loop_returns[of 0 k send mb jitter d 8 None "[]"] assms by simp

lemma request_with_backoff_exhausted:
  assumes "\<forall>a < 8. (status_code (send a) = 429
                    \<or> status_code (send a) = 403 \<and> is_secondary_rate_limit (send a))
                   \<and> retry_delay (send a) mb a (jitter a) = Inr (d a) \<and> 0 \<le> d a"
  shows "request_with_backoff send jitter 8 mb = (Inr (send 7), map d [0 ..< 8])"
  unfolding request_with_backoff_def
  using backoff_loop_exhausted[of 0 8 send mb jitter d None "[]"] assms by simp

text \<open>
  C5 says that the sleep before the next attempt is the value of the \<^verbatim>\<open>Retry-After\<close>
  header when that header is a non-negative integer, and \<open>min(60, 2^attempt)\<close> plus the
  jitter otherwise. The code departs from it where \<^verbatim>\<open>str.isdigit\<close> and \<^verbatim>\<open>int\<close> disagree:
  a header that is the superscript two passes \<^verbatim>\<open>isdigit\<close> and is not an integer, and
  the computation of the delay raises \<^verbatim>\<open>ValueError\<close> instead of giving the exponential
  delay.
\<close>

theorem retry_after_superscript_delay:
  "isdigit [CHR 0xB2]
   \<and> retry_delay
        \<lparr> status_code = 429, body = [], headers = [''Retry-After'' \<mapsto> [CHR 0xB2]],
          json_body = None \<rparr> 60 0 0
       = Inl ValueError"
  by (simp add: retry_delay_def isdigit_def is_digit_char_def py_int_def is_decimal_char_def
                char_code_def)

text \<open>
  C4 says that a 429 response is retried, that a 403 without the rate-limit marker is
  returned at once, and that the call returns a response, never an error, when the 8
  attempts are used up. The same header breaks it: a server that answers 429 with a
  \<^verbatim>\<open>Retry-After\<close> header of the superscript two makes \<^verbatim>\<open>request_with_backoff\<close> raise
  \<^verbatim>\<open>ValueError\<close> at the first attempt, before any sleep.
\<close>

theorem retry_after_superscript_request:
  "request_with_backoff
     (\<lambda>attempt. \<lparr> status_code = 429, body = [], headers = [''Retry-After'' \<mapsto> [CHR 0xB2]],
                  json_body = None \<rparr>)
     (\<lambda>attempt. 0) 8 60
   = (Inl ValueError, [])"
  by (simp add: request_with_backoff_def eval_nat_numeral retry_delay_def isdigit_def
                is_digit_char_def py_int_def is_decimal_char_def char_code_def)

subsection \<open>The continuation header\<close>

lemma find_from_range:
  "find_from c s i = - 1 \<or> (i \<le> find_from c s i \<and> find_from c s i < i + int (length s))"
proof (induction s arbitrary: i)
  case Nil
  then show ?case by simp
next
  case (Cons x xs)
  show ?case
  proof (cases "x = c")
    case True
    then show ?thesis by simp
  next
    case False
    then show ?thesis using Cons[of "i + 1"] by auto
  qed
qed

lemma find_less_length: "0 \<le> find s c \<Longrightarrow> find s c < int (length s)"
  using find_from_range[of c s 0] by (auto simp: find_def)

lemma parse_parts_nonempty: "parse_parts parts = Some u \<Longrightarrow> u \<noteq> []"
proof (induction parts)
  case Nil
  then show ?case by simp
next
  case (Cons part parts)
  show ?case
  proof (cases "sublist next_marker part \<and> find part (CHR ''<'') + 1 > 0
                  \<and> find part (CHR ''>'') > find part (CHR ''<'') + 1")
    case True
    then have u: "u = slice part (nat (find part (CHR ''<'') + 1)) (nat (find part (CHR ''>'')))"
      using Cons.prems by (simp add: Let_def)
    have "find part (CHR ''>'') < int (length part)"
      using True by (intro find_less_length) simp
    then have "length u > 0" using True unfolding u slice_def by simp
    then show ?thesis by simp
  next
    case False
    then have "parse_parts parts = Some u" using Cons.prems by (auto simp: Let_def split: if_splits)
    then show ?thesis by (rule Cons.IH)
  qed
qed

lemma parse_next_link_nonempty: "parse_next_link h = Some u \<Longrightarrow> u \<noteq> []"
  by (auto simp: parse_next_link_def parse_parts_nonempty split: option.splits if_splits)

lemma find_from_takeWhile:
  "find_from c s i = (if c \<in> set s then i + int (length (takeWhile (\<lambda>x. x \<noteq> c) s)) else - 1)"
  by (induction s arbitrary: i) auto

lemma find_takeWhile:
  "find s c = (if c \<in> set s then int (length (takeWhile (\<lambda>x. x \<noteq> c) s)) else - 1)"
  by (simp add: find_def find_from_takeWhile)

lemma find_append_new:
  "c \<notin> set pre \<Longrightarrow> find (pre @ c # rest) c = int (length pre)"
proof -
  assume "c \<notin> set pre"
  then have "takeWhile (\<lambda>x. x \<noteq> c) pre = pre" by (auto simp: takeWhile_eq_all_conv)
  then have "takeWhile (\<lambda>x. x \<noteq> c) (pre @ c # rest) = pre" by (simp add: takeWhile_tail)
  then show ?thesis by (simp add: find_takeWhile)
qed

lemma locator_form:
  assumes "find part (CHR ''<'') + 1 > 0"
      and "find part (CHR ''>'') > find part (CHR ''<'') + 1"
  shows "\<exists>pre post. part = pre @ [CHR ''<''] @ slice part (nat (find part (CHR ''<'') + 1))
                                                   (nat (find part (CHR ''>''))) @ [CHR ''>''] @ post
                    \<and> CHR ''<'' \<notin> set pre \<and> CHR ''>'' \<notin> set pre
                    \<and> CHR ''>'' \<notin> set (slice part (nat (find part (CHR ''<'') + 1))
                                                     (nat (find part (CHR ''>''))))"
proof -
  let ?lt = "CHR ''<''" and ?gt = "CHR ''>''"
  have lt_in: "?lt \<in> set part" using assms(1) by (auto simp: find_takeWhile split: if_splits)
  have gt_in: "?gt \<in> set part" using assms by (auto simp: find_takeWhile split: if_splits)
  define pre where "pre = takeWhile (\<lambda>x. x \<noteq> ?lt) part"
  define r where "r = tl (dropWhile (\<lambda>x. x \<noteq> ?lt) part)"
  have dw: "dropWhile (\<lambda>x. x \<noteq> ?lt) part \<noteq> []" using lt_in by simp
  then have "hd (dropWhile (\<lambda>x. x \<noteq> ?lt) part) = ?lt" using hd_dropWhile[OF dw] by simp
  then have "dropWhile (\<lambda>x. x \<noteq> ?lt) part = ?lt # r" using dw by (cases "dropWhile (\<lambda>x. x \<noteq> ?lt) part") (simp_all add: r_def)
  then have part: "part = pre @ ?lt # r"
    using takeWhile_dropWhile_id[of "\<lambda>x. x \<noteq> ?lt" part] by (simp add: pre_def)
  have lt_pre: "?lt \<notin> set pre" unfolding pre_def by (auto dest: set_takeWhileD)
  have a: "find part ?lt = int (length pre)" using lt_in by (simp add: find_takeWhile pre_def)
  have b: "find part ?gt = int (length (takeWhile (\<lambda>x. x \<noteq> ?gt) part))"
    using gt_in by (simp add: find_takeWhile)
  have gt_pre: "?gt \<notin> set pre"
  proof
    assume "?gt \<in> set pre"
    then have "takeWhile (\<lambda>x. x \<noteq> ?gt) part = takeWhile (\<lambda>x. x \<noteq> ?gt) pre"
      by (subst part) (simp add: takeWhile_append1)
    then have "length (takeWhile (\<lambda>x. x \<noteq> ?gt) part) \<le> length pre"
      by (simp add: length_takeWhile_le)
    then show False using assms(2) a b by simp
  qed
  define u where "u = takeWhile (\<lambda>x. x \<noteq> ?gt) r"
  have tw: "takeWhile (\<lambda>x. x \<noteq> ?gt) part = pre @ ?lt # u"
    using gt_pre by (subst part) (simp add: takeWhile_append u_def)
  have gt_r: "?gt \<in> set r" using gt_in gt_pre by (subst (asm) part) simp
  then have dwr: "dropWhile (\<lambda>x. x \<noteq> ?gt) r \<noteq> []" by simp
  then have "hd (dropWhile (\<lambda>x. x \<noteq> ?gt) r) = ?gt" using hd_dropWhile[OF dwr] by simp
  then obtain post where "dropWhile (\<lambda>x. x \<noteq> ?gt) r = ?gt # post"
    using dwr by (cases "dropWhile (\<lambda>x. x \<noteq> ?gt) r") simp_all
  then have r: "r = u @ ?gt # post"
    using takeWhile_dropWhile_id[of "\<lambda>x. x \<noteq> ?gt" r] by (simp add: u_def)
  have gt_u: "?gt \<notin> set u" unfolding u_def by (auto dest: set_takeWhileD)
  have b': "find part ?gt = int (length pre) + 1 + int (length u)" using b tw by simp
  have "slice part (nat (find part ?lt + 1)) (nat (find part ?gt)) = take (length u) (drop (Suc (length pre)) part)"
    by (simp add: slice_def a b' nat_add_distrib)
  also have "\<dots> = u" by (subst part) (simp add: r)
  finally have sl: "slice part (nat (find part ?lt + 1)) (nat (find part ?gt)) = u" .
  have "part = pre @ [?lt] @ u @ [?gt] @ post" using part r by simp
  then show ?thesis unfolding sl using lt_pre gt_pre gt_u by blast
qed

lemma locator_found:
  assumes "part = pre @ [CHR ''<''] @ u @ [CHR ''>''] @ post"
      and "CHR ''<'' \<notin> set pre" "CHR ''>'' \<notin> set pre" "CHR ''>'' \<notin> set u" "u \<noteq> []"
  shows "find part (CHR ''<'') + 1 > 0 \<and> find part (CHR ''>'') > find part (CHR ''<'') + 1
         \<and> slice part (nat (find part (CHR ''<'') + 1)) (nat (find part (CHR ''>''))) = u"
proof -
  have a: "find part (CHR ''<'') = int (length pre)"
    using assms(2) find_append_new[of "CHR ''<''" pre "u @ [CHR ''>''] @ post"] by (simp add: assms(1))
  have "CHR ''>'' \<notin> set (pre @ [CHR ''<''] @ u)" using assms(3,4) by simp
  then have "find ((pre @ [CHR ''<''] @ u) @ CHR ''>'' # post) (CHR ''>'') = int (length (pre @ [CHR ''<''] @ u))"
    by (rule find_append_new)
  then have b: "find part (CHR ''>'') = int (length pre) + 1 + int (length u)"
    by (simp add: assms(1))
  have "slice part (nat (find part (CHR ''<'') + 1)) (nat (find part (CHR ''>''))) = u"
    unfolding slice_def a b by (simp add: assms(1) nat_add_distrib)
  then show ?thesis using a b assms(5) by simp
qed

lemma parse_parts_None:
  "(\<forall>p \<in> set parts. \<not> sublist next_marker p) \<Longrightarrow> parse_parts parts = None"
  by (induction parts) simp_all

lemma parse_parts_Some:
  "parse_parts parts = Some u \<Longrightarrow>
   \<exists>p \<in> set parts. sublist next_marker p
      \<and> (\<exists>pre post. p = pre @ [CHR ''<''] @ u @ [CHR ''>''] @ post
            \<and> CHR ''<'' \<notin> set pre \<and> CHR ''>'' \<notin> set pre \<and> CHR ''>'' \<notin> set u)"
proof (induction parts)
  case Nil
  then show ?case by simp
next
  case (Cons part parts)
  show ?case
  proof (cases "sublist next_marker part \<and> find part (CHR ''<'') + 1 > 0
                  \<and> find part (CHR ''>'') > find part (CHR ''<'') + 1")
    case True
    then have u: "u = slice part (nat (find part (CHR ''<'') + 1)) (nat (find part (CHR ''>'')))"
      using Cons.prems by (simp add: Let_def)
    show ?thesis using True locator_form[of part] unfolding u by auto
  next
    case False
    then have "parse_parts parts = Some u" using Cons.prems by (auto simp: Let_def split: if_splits)
    then show ?thesis using Cons.IH by auto
  qed
qed

lemma parse_parts_first:
  assumes "\<forall>q \<in> set ps. \<not> sublist next_marker q" "sublist next_marker p"
      and "p = pre @ [CHR ''<''] @ u @ [CHR ''>''] @ post"
      and "CHR ''<'' \<notin> set pre" "CHR ''>'' \<notin> set pre" "CHR ''>'' \<notin> set u" "u \<noteq> []"
  shows "parse_parts (ps @ p # qs) = Some u"
  using assms(1)
proof (induction ps)
  case Nil
  show ?case using locator_found[OF assms(3-7)] assms(2) by (simp add: Let_def)
next
  case (Cons q ps)
  then show ?case by simp
qed

text \<open>
  The segments of a header. A header is read in exactly one way as comma-free segments
  \<open>s0\<close>, \<open>r1\<close>, \<open>r2\<close>, \<dots> joined by commas, which is the string
  \<open>s0 @ concat (map ((#) CHR '','') rest)\<close>; the lemmas below say that \<^verbatim>\<open>split\<close> recovers
  these segments and that stripping a segment changes neither whether it holds the marker
  nor its locator.
\<close>

lemma split_join:
  "\<forall>s \<in> set (s0 # rest). c \<notin> set s \<Longrightarrow>
   split c (s0 @ concat (map ((#) c) rest)) = s0 # rest"
proof (induction rest arbitrary: s0)
  case Nil
  then show ?case by (induction s0) auto
next
  case (Cons r rs)
  have tail: "split c (r @ concat (map ((#) c) rs)) = r # rs"
    using Cons.prems by (intro Cons.IH) simp
  show ?case using Cons.prems(1)
  proof (induction s0)
    case Nil
    then show ?case using tail by simp
  next
    case (Cons x xs)
    then have "x \<noteq> c" by auto
    moreover have "split c (xs @ concat (map ((#) c) (r # rs))) = xs # r # rs"
      using Cons by simp
    ultimately show ?case by simp
  qed
qed

lemma strip_decomp:
  "\<exists>l r. s = l @ strip s @ r \<and> (\<forall>c \<in> set l. is_space c) \<and> (\<forall>c \<in> set r. is_space c)"
proof -
  define l where "l = takeWhile is_space s"
  define t where "t = dropWhile is_space s"
  define r where "r = rev (takeWhile is_space (rev t))"
  have "t = rev (rev t)" by simp
  also have "\<dots> = rev (takeWhile is_space (rev t) @ dropWhile is_space (rev t))"
    by (simp only: takeWhile_dropWhile_id)
  also have "\<dots> = rev (dropWhile is_space (rev t)) @ rev (takeWhile is_space (rev t))"
    by (simp only: rev_append)
  finally have t: "t = strip s @ r" by (simp only: strip_def r_def t_def)
  have "s = l @ t" by (simp add: l_def t_def)
  moreover have "\<forall>c \<in> set l. is_space c" unfolding l_def by (auto dest: set_takeWhileD)
  moreover have "\<forall>c \<in> set r. is_space c" unfolding r_def by (auto dest: set_takeWhileD)
  ultimately show ?thesis using t by (intro exI[of _ l] exI[of _ r]) simp
qed

lemma sublist_strip: "sublist (strip s) s"
proof -
  obtain l r where "s = l @ strip s @ r" using strip_decomp[of s] by blast
  then show ?thesis unfolding sublist_def by blast
qed

lemma sublist_dropWhile:
  assumes "m \<noteq> []" "\<not> P (hd m)"
  shows "sublist m s \<Longrightarrow> sublist m (dropWhile P s)"
proof (induction s)
  case Nil
  then show ?case by simp
next
  case (Cons x xs)
  show ?case
  proof (cases "P x")
    case False
    then show ?thesis using Cons.prems by simp
  next
    case True
    have "\<not> prefix m (x # xs)"
    proof
      assume "prefix m (x # xs)"
      then have "hd m = x" using assms(1) by (cases m) simp_all
      then show False using assms(2) True by simp
    qed
    then have "sublist m xs" using Cons.prems by (simp add: sublist_Cons_right)
    then show ?thesis using Cons.IH True by simp
  qed
qed

lemma sublist_strip_iff:
  assumes "m \<noteq> []" "\<not> is_space (hd m)" "\<not> is_space (last m)"
  shows "sublist m (strip s) \<longleftrightarrow> sublist m s"
proof
  assume "sublist m (strip s)"
  then show "sublist m s" using sublist_strip[of s] by (rule sublist_order.order.trans)
next
  assume "sublist m s"
  then have "sublist m (dropWhile is_space s)"
    using assms(1,2) by (intro sublist_dropWhile)
  then have "sublist (rev m) (rev (dropWhile is_space s))" by (simp add: sublist_rev)
  moreover have "rev m \<noteq> []" "\<not> is_space (hd (rev m))"
    using assms(1,3) by (simp_all add: hd_rev)
  ultimately have "sublist (rev m) (dropWhile is_space (rev (dropWhile is_space s)))"
    by (intro sublist_dropWhile)
  then have "sublist (rev (rev m)) (rev (dropWhile is_space (rev (dropWhile is_space s))))"
    by (simp only: sublist_rev)
  then show "sublist m (strip s)" by (simp add: strip_def)
qed

lemma marker_strip: "sublist next_marker (strip s) \<longleftrightarrow> sublist next_marker s"
  by (rule sublist_strip_iff) (simp_all add: next_marker_def is_space_def char_code_def)

lemma not_space_brackets: "\<not> is_space (CHR ''<'')" "\<not> is_space (CHR ''>'')"
  by (simp_all add: is_space_def char_code_def)

lemma locatorI:
  assumes "seg = pre @ [CHR ''<''] @ u @ [CHR ''>''] @ post"
      and "CHR ''<'' \<notin> set pre" "CHR ''>'' \<notin> set pre" "CHR ''>'' \<notin> set u" "u \<noteq> []"
  shows "locator seg u"
proof (rule conjI)
  show "\<exists>pre post. seg = pre @ [CHR ''<''] @ u @ [CHR ''>''] @ post
          \<and> CHR ''<'' \<notin> set pre \<and> CHR ''>'' \<notin> set pre \<and> CHR ''>'' \<notin> set u"
    using assms(1-4) by (intro exI[of _ pre] exI[of _ post] conjI)
  show "u \<noteq> []" by (rule assms(5))
qed

lemma locatorE:
  assumes "locator seg u"
  obtains pre post where "seg = pre @ [CHR ''<''] @ u @ [CHR ''>''] @ post"
      and "CHR ''<'' \<notin> set pre" and "CHR ''>'' \<notin> set pre" and "CHR ''>'' \<notin> set u"
      and "u \<noteq> []"
proof -
  from assms have e: "\<exists>pre post. seg = pre @ [CHR ''<''] @ u @ [CHR ''>''] @ post
          \<and> CHR ''<'' \<notin> set pre \<and> CHR ''>'' \<notin> set pre \<and> CHR ''>'' \<notin> set u"
    and n: "u \<noteq> []" by (rule conjunct1, rule conjunct2)
  from e obtain pre post where "seg = pre @ [CHR ''<''] @ u @ [CHR ''>''] @ post
          \<and> CHR ''<'' \<notin> set pre \<and> CHR ''>'' \<notin> set pre \<and> CHR ''>'' \<notin> set u"
    by (elim exE)
  then show ?thesis using n that by (elim conjE)
qed

lemma locator_strip_imp:
  assumes "locator (strip s) u"
  shows "locator s u"
proof -
  obtain pre post where f: "strip s = pre @ [CHR ''<''] @ u @ [CHR ''>''] @ post"
      "CHR ''<'' \<notin> set pre" "CHR ''>'' \<notin> set pre" "CHR ''>'' \<notin> set u" "u \<noteq> []"
    using assms by (rule locatorE)
  obtain l r where d: "s = l @ strip s @ r" "\<forall>c \<in> set l. is_space c"
    using strip_decomp[of s] by (elim exE conjE)
  have "CHR ''<'' \<notin> set l" "CHR ''>'' \<notin> set l" using d(2) not_space_brackets by auto
  then have a: "CHR ''<'' \<notin> set (l @ pre)" "CHR ''>'' \<notin> set (l @ pre)"
    using f(2,3) by simp_all
  have e: "l @ strip s @ r = (l @ pre) @ [CHR ''<''] @ u @ [CHR ''>''] @ (post @ r)"
    by (simp add: f(1))
  have "s = (l @ pre) @ [CHR ''<''] @ u @ [CHR ''>''] @ (post @ r)"
    by (rule trans[OF d(1) e])
  then show ?thesis using a f(4,5) by (rule locatorI)
qed

lemma dropWhile_space_front:
  assumes "\<not> is_space b"
  shows "\<exists>pre'. dropWhile is_space (pre @ b # rest) = pre' @ b # rest \<and> set pre' \<subseteq> set pre"
proof (cases "\<forall>x \<in> set pre. is_space x")
  case True
  then have "dropWhile is_space (pre @ b # rest) = [] @ b # rest"
    using assms by (simp add: dropWhile_append)
  then show ?thesis by (intro exI[of _ "[]"]) simp
next
  case False
  then obtain x where "x \<in> set pre" "\<not> is_space x" by blast
  then have "dropWhile is_space (pre @ b # rest) = dropWhile is_space pre @ b # rest"
    by (rule dropWhile_append1)
  moreover have "set (dropWhile is_space pre) \<subseteq> set pre" by (auto dest: set_dropWhileD)
  ultimately show ?thesis by (intro exI[of _ "dropWhile is_space pre"]) simp
qed

lemma locator_imp_strip:
  assumes "locator s u"
  shows "locator (strip s) u"
proof -
  obtain pre post where f: "s = pre @ [CHR ''<''] @ u @ [CHR ''>''] @ post"
      "CHR ''<'' \<notin> set pre" "CHR ''>'' \<notin> set pre" "CHR ''>'' \<notin> set u" "u \<noteq> []"
    using assms by (rule locatorE)
  obtain pre' where p: "dropWhile is_space (pre @ CHR ''<'' # (u @ CHR ''>'' # post))
                          = pre' @ CHR ''<'' # (u @ CHR ''>'' # post)" "set pre' \<subseteq> set pre"
    using dropWhile_space_front[OF not_space_brackets(1), of pre "u @ CHR ''>'' # post"]
    by (elim exE conjE)
  have r1: "rev (dropWhile is_space s) = rev post @ CHR ''>'' # (rev u @ CHR ''<'' # rev pre')"
    using p(1) by (simp add: f(1))
  obtain post' where q: "dropWhile is_space (rev post @ CHR ''>'' # (rev u @ CHR ''<'' # rev pre'))
                          = post' @ CHR ''>'' # (rev u @ CHR ''<'' # rev pre')"
    using dropWhile_space_front[OF not_space_brackets(2), of "rev post" "rev u @ CHR ''<'' # rev pre'"]
    by (elim exE conjE)
  have "strip s = pre' @ [CHR ''<''] @ u @ [CHR ''>''] @ rev post'"
    unfolding strip_def r1 q by simp
  moreover have "CHR ''<'' \<notin> set pre'" "CHR ''>'' \<notin> set pre'" using p(2) f(2,3) by auto
  ultimately show ?thesis using f(4,5) by (rule locatorI)
qed

lemma locator_strip: "locator (strip s) u \<longleftrightarrow> locator s u"
  by (rule iffI, erule locator_strip_imp, erule locator_imp_strip)

lemma parse_next_link_parts:
  "parse_next_link (Some h) = parse_parts (map strip (split (CHR '','') h))"
proof (cases "h = []")
  case True
  have "\<not> sublist next_marker []" by (simp add: next_marker_def)
  then show ?thesis using True by (simp add: parse_next_link_def strip_def)
next
  case False
  then show ?thesis by (simp add: parse_next_link_def)
qed

lemma check_imp_locator:
  assumes "find part (CHR ''<'') + 1 > 0"
      and "find part (CHR ''>'') > find part (CHR ''<'') + 1"
  shows "locator part (slice part (nat (find part (CHR ''<'') + 1)) (nat (find part (CHR ''>''))))"
proof (rule conjI)
  show "\<exists>pre post. part = pre @ [CHR ''<''] @ slice part (nat (find part (CHR ''<'') + 1))
                                                   (nat (find part (CHR ''>''))) @ [CHR ''>''] @ post
                    \<and> CHR ''<'' \<notin> set pre \<and> CHR ''>'' \<notin> set pre
                    \<and> CHR ''>'' \<notin> set (slice part (nat (find part (CHR ''<'') + 1))
                                                     (nat (find part (CHR ''>''))))"
    using assms by (rule locator_form)
  have "find part (CHR ''>'') < int (length part)"
    using assms by (intro find_less_length) simp
  then have "length (slice part (nat (find part (CHR ''<'') + 1)) (nat (find part (CHR ''>'')))) > 0"
    using assms unfolding slice_def by simp
  then show "slice part (nat (find part (CHR ''<'') + 1)) (nat (find part (CHR ''>''))) \<noteq> []"
    by simp
qed

lemma locator_imp_check:
  assumes "locator part u"
  shows "find part (CHR ''<'') + 1 > 0 \<and> find part (CHR ''>'') > find part (CHR ''<'') + 1
         \<and> slice part (nat (find part (CHR ''<'') + 1)) (nat (find part (CHR ''>''))) = u"
proof -
  obtain pre post where "part = pre @ [CHR ''<''] @ u @ [CHR ''>''] @ post"
      "CHR ''<'' \<notin> set pre" "CHR ''>'' \<notin> set pre" "CHR ''>'' \<notin> set u" "u \<noteq> []"
    using assms by (rule locatorE)
  then show ?thesis by (rule locator_found)
qed

lemma parse_parts_skip:
  assumes "\<forall>q \<in> set ps. \<not> sublist next_marker q \<or> \<not> (\<exists>v. locator q v)"
  shows "parse_parts (ps @ rest) = parse_parts rest"
  using assms
proof (induction ps)
  case Nil
  then show ?case by simp
next
  case (Cons q ps)
  have ih: "parse_parts (ps @ rest) = parse_parts rest" using Cons by simp
  have q: "\<not> sublist next_marker q \<or> \<not> (\<exists>v. locator q v)" using Cons.prems by simp
  show ?case
  proof (cases "sublist next_marker q")
    case False
    then show ?thesis using ih by simp
  next
    case True
    then have nl: "\<And>v. \<not> locator q v" using q by blast
    have "\<not> (find q (CHR ''<'') + 1 > 0 \<and> find q (CHR ''>'') > find q (CHR ''<'') + 1)"
    proof
      assume "find q (CHR ''<'') + 1 > 0 \<and> find q (CHR ''>'') > find q (CHR ''<'') + 1"
      then have "locator q (slice q (nat (find q (CHR ''<'') + 1)) (nat (find q (CHR ''>''))))"
        using check_imp_locator[of q] by (elim conjE)
      then show False using nl by (rule notE[rotated])
    qed
    then have "parse_parts (q # ps @ rest) = parse_parts (ps @ rest)"
      by (auto simp: Let_def)
    then show ?thesis using ih by simp
  qed
qed

lemma parse_parts_hit:
  assumes "sublist next_marker p" "locator p u"
  shows "parse_parts (p # qs) = Some u"
  using locator_imp_check[OF assms(2)] assms(1) by (simp add: Let_def)

lemma parse_parts_raw_skip:
  assumes "\<forall>q \<in> set ps. \<not> sublist next_marker q \<or> \<not> (\<exists>v. locator q v)"
  shows "parse_parts (map strip ps @ rest) = parse_parts rest"
proof (rule parse_parts_skip)
  show "\<forall>q \<in> set (map strip ps). \<not> sublist next_marker q \<or> \<not> (\<exists>v. locator q v)"
  proof
    fix q assume "q \<in> set (map strip ps)"
    then obtain s where s: "s \<in> set ps" "q = strip s" by auto
    then have "\<not> sublist next_marker s \<or> \<not> (\<exists>v. locator s v)" using assms by simp
    then show "\<not> sublist next_marker q \<or> \<not> (\<exists>v. locator q v)"
      unfolding s(2) marker_strip using locator_strip_imp[of s] by blast
  qed
qed

lemma parse_segments_first:
  assumes "\<forall>s \<in> set (s0 # rest). CHR '','' \<notin> set s"
      and "s0 # rest = ps @ s # qs"
      and "\<forall>q \<in> set ps. \<not> sublist next_marker q \<or> \<not> (\<exists>v. locator q v)"
      and "sublist next_marker s" "locator s u"
  shows "parse_next_link (Some (s0 @ concat (map ((#) (CHR '','')) rest))) = Some u"
proof -
  have "split (CHR '','') (s0 @ concat (map ((#) (CHR '','')) rest)) = ps @ s # qs"
    using split_join[OF assms(1)] assms(2) by simp
  then have "parse_next_link (Some (s0 @ concat (map ((#) (CHR '','')) rest)))
               = parse_parts (map strip ps @ strip s # map strip qs)"
    by (simp add: parse_next_link_parts)
  also have "\<dots> = parse_parts (strip s # map strip qs)"
    using assms(3) by (rule parse_parts_raw_skip)
  also have "\<dots> = Some u"
  proof (rule parse_parts_hit)
    show "sublist next_marker (strip s)" using assms(4) by (simp only: marker_strip)
    show "locator (strip s) u" using assms(5) by (rule locator_imp_strip)
  qed
  finally show ?thesis .
qed

lemma parse_segments_none:
  assumes "\<forall>s \<in> set (s0 # rest). CHR '','' \<notin> set s"
      and "\<forall>q \<in> set (s0 # rest). \<not> sublist next_marker q \<or> \<not> (\<exists>v. locator q v)"
  shows "parse_next_link (Some (s0 @ concat (map ((#) (CHR '','')) rest))) = None"
proof -
  have "split (CHR '','') (s0 @ concat (map ((#) (CHR '','')) rest)) = s0 # rest"
    using split_join[OF assms(1)] .
  then have "parse_next_link (Some (s0 @ concat (map ((#) (CHR '','')) rest)))
               = parse_parts (map strip (s0 # rest) @ [])"
    by (simp add: parse_next_link_parts)
  also have "\<dots> = parse_parts []"
    using assms(2) by (rule parse_parts_raw_skip)
  finally show ?thesis by simp
qed

lemma parse_segments_some:
  assumes "\<forall>s \<in> set (s0 # rest). CHR '','' \<notin> set s"
      and "parse_next_link (Some (s0 @ concat (map ((#) (CHR '','')) rest))) = Some u"
  shows "\<exists>s \<in> set (s0 # rest). sublist next_marker s \<and> locator s u"
proof -
  have "split (CHR '','') (s0 @ concat (map ((#) (CHR '','')) rest)) = s0 # rest"
    using split_join[OF assms(1)] .
  then have pp: "parse_parts (map strip (s0 # rest)) = Some u"
    using assms(2) by (simp add: parse_next_link_parts)
  have ne: "u \<noteq> []" using pp by (rule parse_parts_nonempty)
  obtain p where p: "p \<in> set (map strip (s0 # rest))" "sublist next_marker p"
      "\<exists>pre post. p = pre @ [CHR ''<''] @ u @ [CHR ''>''] @ post
            \<and> CHR ''<'' \<notin> set pre \<and> CHR ''>'' \<notin> set pre \<and> CHR ''>'' \<notin> set u"
    using parse_parts_Some[OF pp] by (elim bexE conjE)
  obtain s where s: "s \<in> set (s0 # rest)" "p = strip s" using p(1) by auto
  have "locator (strip s) u" using p(3) ne unfolding s(2) by (rule conjI)
  then have "locator s u" by (rule locator_strip_imp)
  moreover have "sublist next_marker s" using p(2) unfolding s(2) marker_strip .
  ultimately have "sublist next_marker s \<and> locator s u" by (rule conjI[rotated])
  then show ?thesis using s(1) by (rule bexI)
qed

lemma header_segments:
  "\<exists>s0 rest. h = s0 @ concat (map ((#) c) rest) \<and> (\<forall>s \<in> set (s0 # rest). c \<notin> set s)"
proof (induction h)
  case Nil
  show ?case by (intro exI[of _ "[]"]) simp
next
  case (Cons x xs)
  then obtain s0 rest where h: "xs = s0 @ concat (map ((#) c) rest)"
      "\<forall>s \<in> set (s0 # rest). c \<notin> set s" by (elim exE conjE)
  show ?case
  proof (cases "x = c")
    case True
    have "x # xs = [] @ concat (map ((#) c) (s0 # rest))" using True h(1) by simp
    moreover have "\<forall>s \<in> set ([] # s0 # rest). c \<notin> set s" using h(2) by simp
    ultimately show ?thesis by (intro exI[of _ "[]"] exI[of _ "s0 # rest"] conjI)
  next
    case False
    have "x # xs = (x # s0) @ concat (map ((#) c) rest)" using h(1) by simp
    moreover have "\<forall>s \<in> set ((x # s0) # rest). c \<notin> set s" using h(2) False by auto
    ultimately show ?thesis by (intro exI[of _ "x # s0"] exI[of _ rest] conjI)
  qed
qed

text \<open>
  C8. \<^verbatim>\<open>parse_next_link\<close> returns none for an absent or empty header. For a header made of
  the comma-free segments \<open>s0\<close>, \<open>r1\<close>, \<open>r2\<close>, \<dots> joined by commas: when no segment
  contains the marker \<^verbatim>\<open>rel="next"\<close> the result is none; a result \<open>u\<close> is the locator, between
  the first \<open><\<close> and the first \<open>>\<close>, of a segment that contains the marker; the segment
  selected is the first one that contains the marker and has a locator, wherever it stands
  among the segments; and the result is none when there is no such segment. For the
  header of the example the result is \<^verbatim>\<open>https://x/y?page=2\<close>, and with the segments
  exchanged, the marker in the second one, it is the locator of the second.
\<close>

theorem parse_next_link_segments:
  \<open>parse_next_link None = None
   \<and> parse_next_link (Some []) = None
   \<and> ((\<forall>s \<in> set (s0 # rest). CHR '','' \<notin> set s) \<longrightarrow>
        ((\<forall>s \<in> set (s0 # rest). \<not> sublist next_marker s) \<longrightarrow>
           parse_next_link (Some (s0 @ concat (map ((#) (CHR '','')) rest))) = None)
      \<and> (parse_next_link (Some (s0 @ concat (map ((#) (CHR '','')) rest))) = Some u \<longrightarrow>
           (\<exists>s \<in> set (s0 # rest). sublist next_marker s \<and> locator s u))
      \<and> (s0 # rest = ps @ s # qs
           \<and> (\<forall>q \<in> set ps. \<not> sublist next_marker q \<or> \<not> (\<exists>w. locator q w))
           \<and> sublist next_marker s \<and> locator s v \<longrightarrow>
           parse_next_link (Some (s0 @ concat (map ((#) (CHR '','')) rest))) = Some v)
      \<and> ((\<forall>q \<in> set (s0 # rest). \<not> sublist next_marker q \<or> \<not> (\<exists>w. locator q w)) \<longrightarrow>
           parse_next_link (Some (s0 @ concat (map ((#) (CHR '','')) rest))) = None))
   \<and> parse_next_link
        (Some ''<https://x/y?page=2>; rel="next", <https://x/y?page=1>; rel="prev"'')
       = Some ''https://x/y?page=2''
   \<and> parse_next_link
        (Some ''<https://x/y?page=1>; rel="prev", <https://x/y?page=3>; rel="next"'')
       = Some ''https://x/y?page=3''\<close>
proof -
  let ?h = "s0 @ concat (map ((#) (CHR '','')) rest)"
  have c1: "parse_next_link None = None" "parse_next_link (Some []) = None"
    by (simp_all add: parse_next_link_def)
  have seg: "((\<forall>s \<in> set (s0 # rest). \<not> sublist next_marker s) \<longrightarrow>
                parse_next_link (Some ?h) = None)
      \<and> (parse_next_link (Some ?h) = Some u \<longrightarrow>
           (\<exists>s \<in> set (s0 # rest). sublist next_marker s \<and> locator s u))
      \<and> (s0 # rest = ps @ s # qs
           \<and> (\<forall>q \<in> set ps. \<not> sublist next_marker q \<or> \<not> (\<exists>w. locator q w))
           \<and> sublist next_marker s \<and> locator s v \<longrightarrow>
           parse_next_link (Some ?h) = Some v)
      \<and> ((\<forall>q \<in> set (s0 # rest). \<not> sublist next_marker q \<or> \<not> (\<exists>w. locator q w)) \<longrightarrow>
           parse_next_link (Some ?h) = None)"
    if cf: "\<forall>s \<in> set (s0 # rest). CHR '','' \<notin> set s"
  proof (intro conjI impI)
    assume "\<forall>s \<in> set (s0 # rest). \<not> sublist next_marker s"
    then have "\<forall>q \<in> set (s0 # rest). \<not> sublist next_marker q \<or> \<not> (\<exists>w. locator q w)"
      by blast
    with cf show "parse_next_link (Some ?h) = None" by (rule parse_segments_none)
  next
    assume "parse_next_link (Some ?h) = Some u"
    with cf show "\<exists>s \<in> set (s0 # rest). sublist next_marker s \<and> locator s u"
      by (rule parse_segments_some)
  next
    assume a: "s0 # rest = ps @ s # qs
           \<and> (\<forall>q \<in> set ps. \<not> sublist next_marker q \<or> \<not> (\<exists>w. locator q w))
           \<and> sublist next_marker s \<and> locator s v"
    have a1: "s0 # rest = ps @ s # qs" using a by (rule conjunct1)
    have a2: "\<forall>q \<in> set ps. \<not> sublist next_marker q \<or> \<not> (\<exists>w. locator q w)"
      using a by (rule conjunct2[THEN conjunct1])
    have a3: "sublist next_marker s"
      using a by (rule conjunct2[THEN conjunct2, THEN conjunct1])
    have a4: "locator s v"
      using a by (rule conjunct2[THEN conjunct2, THEN conjunct2])
    from cf a1 a2 a3 a4 show "parse_next_link (Some ?h) = Some v"
      by (rule parse_segments_first)
  next
    assume "\<forall>q \<in> set (s0 # rest). \<not> sublist next_marker q \<or> \<not> (\<exists>w. locator q w)"
    with cf show "parse_next_link (Some ?h) = None" by (rule parse_segments_none)
  qed
  have e1: \<open>parse_next_link
        (Some ''<https://x/y?page=2>; rel="next", <https://x/y?page=1>; rel="prev"'')
       = Some ''https://x/y?page=2''\<close>
    by code_simp
  have e2: \<open>parse_next_link
        (Some ''<https://x/y?page=1>; rel="prev", <https://x/y?page=3>; rel="next"'')
       = Some ''https://x/y?page=3''\<close>
    by code_simp
  show ?thesis
    apply (intro conjI)
        apply (rule c1(1))
       apply (rule c1(2))
      apply (rule impI)
      apply (erule seg)
     apply (rule e1)
    apply (rule e2)
    done
qed

theorem parse_next_link_segments_witness:
  \<open>parse_next_link
     (Some ''<https://x/y?page=1>; rel="prev", <https://x/y?page=3>; rel="next"'')
     = Some ''https://x/y?page=3''
   \<and> parse_next_link (Some ''<https://x/y?page=1>; rel="prev",rel="next"'') = None
   \<and> (\<exists>s. sublist next_marker s \<and> locator s ''https://x/y?page=3'')\<close>
proof -
  let ?a = \<open>''<https://x/y?page=1>; rel="prev"''\<close>
  let ?b = \<open>'' <https://x/y?page=3>; rel="next"''\<close>
  let ?c = \<open>''rel="next"''\<close>
  let ?v = "''https://x/y?page=3''"
  have cf: "\<forall>s \<in> set (?a # [?b]). CHR '','' \<notin> set s" by simp
  have cf': "\<forall>s \<in> set (?a # [?c]). CHR '','' \<notin> set s" by simp
  have nm: "\<not> sublist next_marker ?a" by code_simp
  have mk: "sublist next_marker ?b" by code_simp
  have loc: "locator ?b ?v"
    by (rule locatorI[of _ "'' ''" _ \<open>''; rel="next"''\<close>]) simp_all
  have nl: "\<not> (\<exists>w. locator ?c w)"
  proof
    assume "\<exists>w. locator ?c w"
    then obtain w where "locator ?c w" by (elim exE)
    then obtain pre post where eq: "?c = pre @ [CHR ''<''] @ w @ [CHR ''>''] @ post"
      by (rule locatorE)
    have "CHR ''<'' \<in> set (pre @ [CHR ''<''] @ w @ [CHR ''>''] @ post)" by simp
    then have "CHR ''<'' \<in> set ?c" by (rule subst[OF eq[symmetric]])
    moreover have "CHR ''<'' \<notin> set ?c" by simp
    ultimately show False by (rule notE[rotated])
  qed
  have h1: \<open>?a @ concat (map ((#) (CHR '','')) [?b])
            = ''<https://x/y?page=1>; rel="prev", <https://x/y?page=3>; rel="next"''\<close>
    by simp
  have h2: \<open>?a @ concat (map ((#) (CHR '','')) [?c])
            = ''<https://x/y?page=1>; rel="prev",rel="next"''\<close>
    by simp
  note T1 = parse_next_link_segments
              [of ?a "[?b]" ?v "[?a]" ?b "[]" ?v,
               THEN conjunct2, THEN conjunct2, THEN conjunct1, THEN mp, OF cf]
  note T2 = parse_next_link_segments
              [of ?a "[?c]" ?v "[]" ?a "[]" ?v,
               THEN conjunct2, THEN conjunct2, THEN conjunct1, THEN mp, OF cf']
  have p2: "\<forall>q \<in> set [?a]. \<not> sublist next_marker q \<or> \<not> (\<exists>w. locator q w)"
    using nm by simp
  have p1: "?a # [?b] = [?a] @ ?b # []" by simp
  have prem: "?a # [?b] = [?a] @ ?b # []
           \<and> (\<forall>q \<in> set [?a]. \<not> sublist next_marker q \<or> \<not> (\<exists>w. locator q w))
           \<and> sublist next_marker ?b \<and> locator ?b ?v"
    by (rule conjI[OF p1 conjI[OF p2 conjI[OF mk loc]]])
  have r1: "parse_next_link (Some (?a @ concat (map ((#) (CHR '','')) [?b]))) = Some ?v"
    using prem T1[THEN conjunct2, THEN conjunct2, THEN conjunct1] by (rule rev_mp)
  have p3: "\<forall>q \<in> set (?a # [?c]). \<not> sublist next_marker q \<or> \<not> (\<exists>w. locator q w)"
  proof
    fix q assume "q \<in> set (?a # [?c])"
    then have "q = ?a \<or> q = ?c" by (simp only: list.set insert_iff empty_iff) blast
    then show "\<not> sublist next_marker q \<or> \<not> (\<exists>w. locator q w)"
    proof
      assume qa: "q = ?a"
      have "\<not> sublist next_marker q" unfolding qa by (rule nm)
      then show ?thesis by (rule disjI1)
    next
      assume qc: "q = ?c"
      have "\<not> (\<exists>w. locator q w)" unfolding qc by (rule nl)
      then show ?thesis by (rule disjI2)
    qed
  qed
  have r2: "parse_next_link (Some (?a @ concat (map ((#) (CHR '','')) [?c]))) = None"
    using p3 T2[THEN conjunct2, THEN conjunct2, THEN conjunct2] by (rule rev_mp)
  have r3: "\<exists>s \<in> set (?a # [?b]). sublist next_marker s \<and> locator s ?v"
    using r1 T1[THEN conjunct2, THEN conjunct1] by (rule rev_mp)
  have r3': "\<exists>s. sublist next_marker s \<and> locator s ?v"
  proof (rule bexE[OF r3])
    fix s assume "sublist next_marker s \<and> locator s ?v"
    then show ?thesis by (rule exI[of _ s])
  qed
  show ?thesis
    apply (rule conjI)
     apply (rule r1[unfolded h1])
    apply (rule conjI)
     apply (rule r2[unfolded h2])
    apply (rule r3')
    done
qed

subsection \<open>Pagination\<close>

lemma fetch_loop_always_next:
  assumes good: "\<And>p u. \<exists>r. request p u = Inr r \<and> status_code r = 200 \<and> json_body r \<noteq> None
                        \<and> parse_next_link (headers r ''Link'') \<noteq> None"
  shows "url \<noteq> [] \<Longrightarrow> page + n = 200 \<Longrightarrow>
         fetch_loop request (Some url) page logins fetched
           = (fetched + Suc n, Inl (SystemExit TooManyPages))"
proof (induction n arbitrary: url page logins fetched)
  case 0
  obtain r where r: "request page url = Inr r" "status_code r = 200" "json_body r \<noteq> None"
    using good by blast
  then obtain payload where "json_body r = Some payload" by auto
  then show ?case using 0 r by (subst fetch_loop.simps) simp
next
  case (Suc n)
  obtain r where r: "request page url = Inr r" "status_code r = 200" "json_body r \<noteq> None"
      "parse_next_link (headers r ''Link'') \<noteq> None"
    using good by blast
  then obtain payload u where p: "json_body r = Some payload"
      "parse_next_link (headers r ''Link'') = Some u" by auto
  then have "u \<noteq> []" using parse_next_link_nonempty by blast
  then have "fetch_loop request (Some u) (Suc page) (logins @ page_logins payload) (Suc fetched)
               = (Suc fetched + Suc n, Inl (SystemExit TooManyPages))"
    using Suc.prems by (intro Suc.IH) simp_all
  then show ?case using Suc.prems r p by (subst fetch_loop.simps) simp
qed

lemma fetch_loop_bound:
  "page \<le> 200 \<Longrightarrow>
   fst (fetch_loop request next_url page logins fetched) \<le> fetched + (201 - page)"
proof (induction request next_url page logins fetched rule: fetch_loop.induct)
  case (1 request next_url page logins fetched)
  show ?case
  proof (cases "\<exists>url resp payload. next_url = Some url \<and> url \<noteq> [] \<and> request page url = Inr resp
                   \<and> status_code resp = 200 \<and> json_body resp = Some payload \<and> \<not> Suc page > 200")
    case True
    then obtain url resp payload where h: "next_url = Some url" "url \<noteq> []"
        "request page url = Inr resp" "status_code resp = 200" "json_body resp = Some payload"
        "\<not> Suc page > 200" by blast
    have "fst (fetch_loop request (parse_next_link (headers resp ''Link'')) (Suc page)
                 (logins @ page_logins payload) (Suc fetched)) \<le> Suc fetched + (201 - Suc page)"
      using h by (intro 1) simp_all
    moreover have "fetch_loop request next_url page logins fetched
        = fetch_loop request (parse_next_link (headers resp ''Link'')) (Suc page)
                 (logins @ page_logins payload) (Suc fetched)"
      using h by (subst fetch_loop.simps) simp
    ultimately show ?thesis using h by simp
  next
    case False
    then show ?thesis using 1(2)
      by (subst fetch_loop.simps) (auto split: option.splits sum.splits)
  qed
qed

lemma request_with_backoff_first_ok:
  "status_code (send 0) = 200 \<Longrightarrow>
   fst (request_with_backoff send jitter 8 max_backoff_seconds) = Inr (send 0)"
  by (simp add: request_with_backoff_def eval_nat_numeral)

text \<open>
  C9. The loop that fetches the pages runs at most 200 times in every run, whatever the
  server answers (for the function with plain requests and for the one with retrying
  requests). When every request is answered by a page (status 200 and a body that
  decodes) with a next locator in its \<^verbatim>\<open>Link\<close> header, the fetch stops after exactly 200
  pages with the \<^verbatim>\<open>SystemExit\<close> of the pagination guard.
\<close>

theorem pagination_guard:
  \<open>fst (fetch_enterprise_team_member_logins server base enterprise team_slug) \<le> 200
   \<and> fst (fetch_enterprise_team_member_logins_backoff server' jitter base enterprise team_slug)
         \<le> 200
   \<and> ((\<forall>page url. status_code (server page url) = 200
                    \<and> json_body (server page url) \<noteq> None
                    \<and> parse_next_link (headers (server page url) ''Link'') \<noteq> None) \<longrightarrow>
        fetch_enterprise_team_member_logins server base enterprise team_slug
          = (200, Inl (SystemExit TooManyPages)))
   \<and> ((\<forall>page url. status_code (server' page url 0) = 200
                    \<and> json_body (server' page url 0) \<noteq> None
                    \<and> parse_next_link (headers (server' page url 0) ''Link'') \<noteq> None) \<longrightarrow>
        fetch_enterprise_team_member_logins_backoff server' jitter base enterprise team_slug
          = (200, Inl (SystemExit TooManyPages)))\<close>
proof -
  have url: "memberships_url base enterprise team_slug \<noteq> []"
    by (simp add: memberships_url_def)
  have b1: "fst (fetch_enterprise_team_member_logins server base enterprise team_slug) \<le> 200"
    unfolding fetch_enterprise_team_member_logins_def
    using fetch_loop_bound[of 1 "\<lambda>page url. Inr (server page url)" _ "[]" 0] by simp
  have b2: "fst (fetch_enterprise_team_member_logins_backoff server' jitter base enterprise
                   team_slug) \<le> 200"
    unfolding fetch_enterprise_team_member_logins_backoff_def
    using fetch_loop_bound[of 1 _ _ "[]" 0] by simp
  have g1: "fetch_enterprise_team_member_logins server base enterprise team_slug
          = (200, Inl (SystemExit TooManyPages))"
    if "\<forall>page url. status_code (server page url) = 200
                    \<and> json_body (server page url) \<noteq> None
                    \<and> parse_next_link (headers (server page url) ''Link'') \<noteq> None"
    unfolding fetch_enterprise_team_member_logins_def
    using fetch_loop_always_next[of "\<lambda>page url. Inr (server page url)"
                                    "memberships_url base enterprise team_slug" 1 199 "[]" 0]
          that url
    by simp
  have g2: "fetch_enterprise_team_member_logins_backoff server' jitter base enterprise team_slug
          = (200, Inl (SystemExit TooManyPages))"
    if h: "\<forall>page url. status_code (server' page url 0) = 200
                    \<and> json_body (server' page url 0) \<noteq> None
                    \<and> parse_next_link (headers (server' page url 0) ''Link'') \<noteq> None"
  proof -
    have "\<exists>r. fst (request_with_backoff (server' p u) (jitter p) 8 60) = Inr r
              \<and> status_code r = 200 \<and> json_body r \<noteq> None
              \<and> parse_next_link (headers r ''Link'') \<noteq> None" for p u
      using h request_with_backoff_first_ok[of "server' p u" "jitter p" 60] by simp
    then show ?thesis
      unfolding fetch_enterprise_team_member_logins_backoff_def
      using fetch_loop_always_next[of
              "\<lambda>page url. fst (request_with_backoff (server' page url) (jitter page) 8 60)"
              "memberships_url base enterprise team_slug" 1 199 "[]" 0]
            url
      by simp
  qed
  show ?thesis using b1 b2 g1 g2 by blast
qed

theorem pagination_guard_witness:
  \<open>parse_next_link (Some ''<https://x/y?page=2>; rel="next"'') \<noteq> None
   \<and> fetch_enterprise_team_member_logins
        (\<lambda>page url. \<lparr> status_code = 200, body = [],
                       headers = [''Link'' \<mapsto> ''<https://x/y?page=2>; rel="next"''],
                       json_body = Some (JList []) \<rparr>)
        ''B'' ''E'' ''T''
       = (200, Inl (SystemExit TooManyPages))
   \<and> fetch_enterprise_team_member_logins_backoff
        (\<lambda>page url attempt. \<lparr> status_code = 200, body = [],
                       headers = [''Link'' \<mapsto> ''<https://x/y?page=2>; rel="next"''],
                       json_body = Some (JList []) \<rparr>)
        (\<lambda>page attempt. 0) ''B'' ''E'' ''T''
       = (200, Inl (SystemExit TooManyPages))\<close>
proof -
  have n: \<open>parse_next_link (Some ''<https://x/y?page=2>; rel="next"'') \<noteq> None\<close>
    by code_simp
  show ?thesis
    using n
      pagination_guard [of
        \<open>\<lambda>page url. \<lparr> status_code = 200, body = [],
                       headers = [''Link'' \<mapsto> ''<https://x/y?page=2>; rel="next"''],
                       json_body = Some (JList []) \<rparr>\<close>
        "''B''" "''E''" "''T''"
        \<open>\<lambda>page url attempt. \<lparr> status_code = 200, body = [],
                       headers = [''Link'' \<mapsto> ''<https://x/y?page=2>; rel="next"''],
                       json_body = Some (JList []) \<rparr>\<close>
        \<open>\<lambda>page attempt. 0\<close>]
    by simp
qed

end
